theory Spec2Isabelle
  imports Main
begin

section \<open>Data model\<close>

datatype RecurrencePattern = DAILY | WEEKLY | MONTHLY | YEARLY

text \<open>
  The \<open>Task\<close> entity (entities/task.entity.ts): its columns without \<open>createdAt\<close> and
  \<open>updatedAt\<close>. Instants are milliseconds since the epoch, ids are the generated primary
  keys, \<open>None\<close> is SQL \<open>NULL\<close> in the nullable columns. The relations are read off the
  columns (\<open>parentTask\<close>, \<open>children\<close>) and off the join table (\<open>blocks\<close>, \<open>blockedBy\<close>).
\<close>

record Task =
  task_id :: nat
  userId :: nat
  title :: string
  description :: "string option"
  scheduledTime :: int
  completed :: bool
  recurrencePattern :: "RecurrencePattern option"
  recurrenceInterval :: "nat option"
  recurrenceEndDate :: "int option"
  parentRecurrencyId :: "nat option"
  parentTaskId :: "nat option"

text \<open>
  \<open>CreateTaskDto\<close> (dto/create-task.dto); the date strings are already parsed. The class
  initialises \<open>recurrenceInterval\<close> to 1, so an interval left out arrives as \<open>Some 1\<close>;
  \<open>None\<close> is an explicit \<open>null\<close>.
\<close>

record CreateTaskDto =
  c_title :: string
  c_description :: "string option"
  c_scheduledTime :: int
  c_parentTaskId :: "nat option"
  c_recurrencePattern :: "RecurrencePattern option"
  c_recurrenceInterval :: "nat option"
  c_recurrenceEndDate :: "int option"

text \<open>
  Modelled from the spec: \<open>UpdateTaskDto\<close> (dto/update-task.dto is not among the
  sources): every field optional, \<open>None\<close> is \<open>undefined\<close>. The parent field has three
  states, since \<open>update\<close> tells \<open>undefined\<close> from \<open>null\<close>.
\<close>

record UpdateTaskDto =
  u_title :: "string option"
  u_description :: "string option"
  u_scheduledTime :: "int option"
  u_completed :: "bool option"
  u_recurrencePattern :: "RecurrencePattern option"
  u_recurrenceInterval :: "nat option"
  u_recurrenceEndDate :: "int option"
  u_parentTaskId :: "nat option option"

text \<open>
  The exceptions of the services, named by the taxonomy of section 7: the code raises
  \<open>NotFoundException\<close> and \<open>BadRequestException\<close> with a message, and the message
  decides the constructor. \<open>InternalError\<close> is a plain \<open>Error\<close>.
  \<open>InvariantViolation\<close> belongs to the taxonomy; no function of the code raises it.
\<close>

datatype error =
  NotFound
  | InvalidRelationship
  | CircularDependency
  | DuplicateRelationship
  | SelfReference
  | BlockedByChildren "string list"
  | BlockedByDependency "string list"
  | InvariantViolation
  | InternalError

text \<open>
  The calls the task services make to \<open>NotificationsService\<close>
  (\<open>createTaskCreatedNotification\<close> and \<open>createTaskCompletedNotification\<close>, with the task
  id, the user id and the title) and to \<open>ScheduledNotificationService\<close>
  (\<open>scheduleRemindersForTask\<close>, with the task). Both write the notification table only
  and return; the model records the calls in order and leaves that table out.
\<close>

datatype event =
  TaskCreatedNotification nat nat string
  | TaskCompletedNotification nat nat string
  | RemindersScheduled nat

text \<open>
  The task table, the join table of the \<open>blocks\<close> relation (blocking id, blocked id),
  the next generated id and the collaborator calls made so far.
\<close>

record store =
  tasks :: "Task list"
  blocks :: "(nat \<times> nat) list"
  nextId :: nat
  events :: "event list"

section \<open>Repository\<close>

text \<open>
  The id is the primary key: a lookup by id and owner finds the row with that id and
  checks its owner.
\<close>

definition findById :: "store \<Rightarrow> nat \<Rightarrow> Task option" where
  "findById s i = find (\<lambda>t. task_id t = i) (tasks s)"

definition findOne :: "store \<Rightarrow> nat \<Rightarrow> nat \<Rightarrow> Task option" where
  "findOne s i u =
     (case findById s i of
        None \<Rightarrow> None
      | Some t \<Rightarrow> if userId t = u then Some t else None)"

text \<open>The relations a query loads: joins on the id, with no owner filter.\<close>

definition parentTask :: "store \<Rightarrow> Task \<Rightarrow> Task option" where
  "parentTask s t = (case parentTaskId t of None \<Rightarrow> None | Some p \<Rightarrow> findById s p)"

definition children :: "store \<Rightarrow> nat \<Rightarrow> Task list" where
  "children s i = filter (\<lambda>t. parentTaskId t = Some i) (tasks s)"

definition blocks_of :: "store \<Rightarrow> nat \<Rightarrow> Task list" where
  "blocks_of s i = filter (\<lambda>t. (i, task_id t) \<in> set (blocks s)) (tasks s)"

definition blockedBy :: "store \<Rightarrow> nat \<Rightarrow> Task list" where
  "blockedBy s i = filter (\<lambda>t. (task_id t, i) \<in> set (blocks s)) (tasks s)"

text \<open>\<open>save\<close> of a loaded row, \<open>save\<close> of a new row, and \<open>update(criteria, {completed: true})\<close>.\<close>

definition repo_save :: "Task \<Rightarrow> store \<Rightarrow> store" where
  "repo_save t s = s\<lparr>tasks := map (\<lambda>r. if task_id r = task_id t then t else r) (tasks s)\<rparr>"

definition repo_insert :: "(nat \<Rightarrow> Task) \<Rightarrow> store \<Rightarrow> Task \<times> store" where
  "repo_insert mk s =
     (let t = mk (nextId s)
      in (t, s\<lparr>tasks := tasks s @ [t], nextId := Suc (nextId s)\<rparr>))"

definition repo_update_completed :: "nat \<Rightarrow> nat \<Rightarrow> store \<Rightarrow> store" where
  "repo_update_completed i u s =
     s\<lparr>tasks := map (\<lambda>r. if task_id r = i \<and> userId r = u then r\<lparr>completed := True\<rparr> else r) (tasks s)\<rparr>"

text \<open>
  \<open>delete(criteria)\<close>. The relations \<open>parentTask\<close> and \<open>parentRecurringTask\<close> and the
  join table are declared \<open>onDelete: 'CASCADE'\<close>: with a row go the rows that name it as
  parent or as template, and theirs in turn, and the edges it takes part in.
\<close>

definition references_deleted :: "nat set \<Rightarrow> Task \<Rightarrow> bool" where
  "references_deleted D t =
     ((case parentTaskId t of None \<Rightarrow> False | Some p \<Rightarrow> p \<in> D)
      \<or> (case parentRecurrencyId t of None \<Rightarrow> False | Some p \<Rightarrow> p \<in> D))"

function cascade_ids :: "Task list \<Rightarrow> nat set \<Rightarrow> nat set" where
  "cascade_ids ts D =
     (if task_id ` set (filter (references_deleted D) ts) \<subseteq> D then D
      else cascade_ids ts (D \<union> task_id ` set (filter (references_deleted D) ts)))"
  by pat_completeness auto

termination cascade_ids
proof (relation "measure (\<lambda>(ts, D). card (task_id ` set ts - D))", goal_cases)
  case 1
  then show ?case by simp
next
  case (2 ts D)
  let ?X = "task_id ` set (filter (references_deleted D) ts)"
  from 2 obtain x where x: "x \<in> ?X" "x \<notin> D" by blast
  then have "x \<in> task_id ` set ts - D" "x \<notin> task_id ` set ts - (D \<union> ?X)"
    by auto
  then have "task_id ` set ts - (D \<union> ?X) \<subset> task_id ` set ts - D"
    by blast
  then have "card (task_id ` set ts - (D \<union> ?X)) < card (task_id ` set ts - D)"
    by (intro psubset_card_mono) auto
  then show ?case by simp
qed

declare cascade_ids.simps [simp del]

definition repo_delete :: "(Task \<Rightarrow> bool) \<Rightarrow> store \<Rightarrow> store" where
  "repo_delete P s =
     (let D = cascade_ids (tasks s) (task_id ` set (filter P (tasks s)))
      in s\<lparr>tasks := filter (\<lambda>t. task_id t \<notin> D) (tasks s),
           blocks := filter (\<lambda>(a, b). a \<notin> D \<and> b \<notin> D) (blocks s)\<rparr>)"

definition emit :: "event \<Rightarrow> store \<Rightarrow> store" where
  "emit e s = s\<lparr>events := events s @ [e]\<rparr>"

text \<open>JavaScript truthiness of an optional number: \<open>undefined\<close>, \<open>null\<close> and \<open>0\<close> are falsy.\<close>

definition truthy :: "nat option \<Rightarrow> bool" where
  "truthy x = (case x of None \<Rightarrow> False | Some n \<Rightarrow> n \<noteq> 0)"

text \<open>
  A call either does not return (\<open>None\<close>), throws (\<open>Some (Inl e)\<close>) or returns
  (\<open>Some (Inr x)\<close>).
\<close>

definition bindR :: "(error + 'a) option \<Rightarrow> ('a \<Rightarrow> (error + 'b) option) \<Rightarrow> (error + 'b) option" where
  "bindR m f = (case m of None \<Rightarrow> None | Some (Inl e) \<Rightarrow> Some (Inl e) | Some (Inr x) \<Rightarrow> f x)"

section \<open>TaskHierarchyService\<close>

definition validateChildDueDate :: "store \<Rightarrow> int \<Rightarrow> nat \<Rightarrow> nat \<Rightarrow> error + unit" where
  "validateChildDueDate s childScheduledTime parentId u =
     (case findOne s parentId u of
        None \<Rightarrow> Inl NotFound
      | Some p \<Rightarrow>
          if childScheduledTime > scheduledTime p then Inl InvalidRelationship else Inr ())"

partial_function (option) isDescendant :: "store \<Rightarrow> nat \<Rightarrow> nat \<Rightarrow> nat \<Rightarrow> bool option" where
  "isDescendant s potentialDescendantId ancestorId u =
     (case findOne s potentialDescendantId u of
        None \<Rightarrow> Some False
      | Some t \<Rightarrow>
          (case parentTask s t of
             None \<Rightarrow> Some False
           | Some p \<Rightarrow>
               if task_id p = ancestorId then Some True
               else isDescendant s (task_id p) ancestorId u))"

definition validateNoCircularDependency :: "store \<Rightarrow> nat \<Rightarrow> nat \<Rightarrow> nat \<Rightarrow> (error + unit) option" where
  "validateNoCircularDependency s taskId parentId u =
     (case isDescendant s parentId taskId u of
        None \<Rightarrow> None
      | Some isCircular \<Rightarrow> if isCircular then Some (Inl InvalidRelationship) else Some (Inr ()))"

definition validateParentCompletion :: "store \<Rightarrow> nat \<Rightarrow> nat \<Rightarrow> error + unit" where
  "validateParentCompletion s taskId u =
     (let incompleteChildren =
            filter (\<lambda>t. parentTaskId t = Some taskId \<and> userId t = u \<and> \<not> completed t) (tasks s)
      in if length incompleteChildren > 0
         then Inl (BlockedByChildren (map title incompleteChildren))
         else Inr ())"

definition incomplete_count :: "store \<Rightarrow> nat" where
  "incomplete_count s = length (filter (\<lambda>t. \<not> completed t) (tasks s))"

function checkAndCompleteParentTasks :: "nat \<Rightarrow> nat \<Rightarrow> store \<Rightarrow> store" where
  "checkAndCompleteParentTasks taskId u s =
     (case findOne s taskId u of
        None \<Rightarrow> s
      | Some t \<Rightarrow>
          (case parentTask s t of
             None \<Rightarrow> s
           | Some p \<Rightarrow>
               if completed p then s
               else
                 let siblings =
                       filter (\<lambda>r. parentTaskId r = Some (task_id p) \<and> userId r = u) (tasks s)
                 in if list_all completed siblings
                    then checkAndCompleteParentTasks (task_id p) u
                           (repo_update_completed (task_id p) u s)
                    else s))"
  by pat_completeness auto

lemma findById_SomeD: "findById s i = Some p \<Longrightarrow> p \<in> set (tasks s) \<and> task_id p = i"
  by (auto simp: findById_def find_Some_iff)

lemma parentTask_SomeD: "parentTask s t = Some p \<Longrightarrow> findById s (task_id p) = Some p \<and> parentTaskId t = Some (task_id p)"
  by (auto simp: parentTask_def split: option.splits dest: findById_SomeD)

lemma filter_map_length_le:
  "(\<And>x. x \<in> set xs \<Longrightarrow> P (f x) \<Longrightarrow> P x) \<Longrightarrow> length (filter P (map f xs)) \<le> length (filter P xs)"
  by (induction xs) auto

lemma filter_map_length_less:
  "(\<And>x. x \<in> set xs \<Longrightarrow> P (f x) \<Longrightarrow> P x) \<Longrightarrow> x \<in> set xs \<Longrightarrow> P x \<Longrightarrow> \<not> P (f x)
   \<Longrightarrow> length (filter P (map f xs)) < length (filter P xs)"
proof (induction xs)
  case Nil
  then show ?case by simp
next
  case (Cons a xs)
  have le: "length (filter P (map f xs)) \<le> length (filter P xs)"
    using Cons.prems(1) by (intro filter_map_length_le) auto
  show ?case
  proof (cases "x = a")
    case True
    with Cons.prems le show ?thesis by auto
  next
    case False
    with Cons.prems have "x \<in> set xs" by simp
    with Cons have "length (filter P (map f xs)) < length (filter P xs)" by auto
    moreover have "P (f a) \<Longrightarrow> P a" using Cons.prems(1)[of a] by simp
    ultimately show ?thesis by auto
  qed
qed

lemma incomplete_count_update_le:
  "incomplete_count (repo_update_completed i u s) \<le> incomplete_count s"
proof -
  have "length (filter (\<lambda>t. \<not> completed t)
          (map (\<lambda>r. if task_id r = i \<and> userId r = u then r\<lparr>completed := True\<rparr> else r) (tasks s)))
        \<le> length (filter (\<lambda>t. \<not> completed t) (tasks s))"
    by (rule filter_map_length_le) (simp split: if_splits)
  then show ?thesis
    by (simp add: incomplete_count_def repo_update_completed_def del: filter_map)
qed

lemma incomplete_count_update_less:
  assumes "p \<in> set (tasks s)" "task_id p = i" "userId p = u" "\<not> completed p"
  shows "incomplete_count (repo_update_completed i u s) < incomplete_count s"
proof -
  have "length (filter (\<lambda>t. \<not> completed t)
          (map (\<lambda>r. if task_id r = i \<and> userId r = u then r\<lparr>completed := True\<rparr> else r) (tasks s)))
        < length (filter (\<lambda>t. \<not> completed t) (tasks s))"
  proof (rule filter_map_length_less[where x = p])
    show "p \<in> set (tasks s)" by (rule assms(1))
    show "\<not> completed p" by (rule assms(4))
    show "\<not> \<not> completed (if task_id p = i \<and> userId p = u then p\<lparr>completed := True\<rparr> else p)"
      using assms by simp
  qed (simp split: if_splits)
  then show ?thesis
    by (simp add: incomplete_count_def repo_update_completed_def del: filter_map)
qed

lemma find_map_task: "(\<And>x. P (f x) = P x) \<Longrightarrow> find P (map f xs) = map_option f (find P xs)"
  by (induction xs) auto

lemma findById_update_completed:
  "findById (repo_update_completed i u s) j =
     map_option (\<lambda>r. if task_id r = i \<and> userId r = u then r\<lparr>completed := True\<rparr> else r) (findById s j)"
  unfolding findById_def repo_update_completed_def
  by (simp, rule find_map_task) simp

lemma findOne_update_completed:
  "findOne (repo_update_completed i u s) j v =
     map_option (\<lambda>r. if task_id r = i \<and> userId r = u then r\<lparr>completed := True\<rparr> else r) (findOne s j v)"
  unfolding findOne_def findById_update_completed
  by (auto split: option.splits)

termination checkAndCompleteParentTasks
proof (relation "measure (\<lambda>(taskId, u, s). 2 * incomplete_count s +
           (case findOne s taskId u of None \<Rightarrow> 0 | Some _ \<Rightarrow> 1))", goal_cases)
  case 1
  then show ?case by simp
next
  case (2 taskId u s t p siblings)
  from 2(2) have p: "findById s (task_id p) = Some p" "p \<in> set (tasks s)"
    using parentTask_SomeD findById_SomeD by blast+
  show ?case
  proof (cases "userId p = u")
    case True
    with p 2(3) have "incomplete_count (repo_update_completed (task_id p) u s) < incomplete_count s"
      by (intro incomplete_count_update_less[where p = p]) auto
    then show ?thesis using 2(1) by (auto split: option.splits)
  next
    case False
    with p have "findOne s (task_id p) u = None" by (simp add: findOne_def)
    then have "findOne (repo_update_completed (task_id p) u s) (task_id p) u = None"
      by (simp add: findOne_update_completed)
    then show ?thesis using 2(1) incomplete_count_update_le[of "task_id p" u s] by simp
  qed
qed

declare checkAndCompleteParentTasks.simps [simp del]

definition moveTask :: "nat \<Rightarrow> nat option \<Rightarrow> nat \<Rightarrow> store \<Rightarrow> (error + store) option" where
  "moveTask taskId newParentTaskId u s =
     (case findOne s taskId u of
        None \<Rightarrow> Some (Inl NotFound)
      | Some t \<Rightarrow>
          bindR (case newParentTaskId of
                   None \<Rightarrow> Some (Inr ())
                 | Some p \<Rightarrow>
                     if p \<noteq> 0
                     then bindR (validateNoCircularDependency s taskId p u)
                            (\<lambda>_. Some (validateChildDueDate s (scheduledTime t) p u))
                     else Some (Inr ()))
            (\<lambda>_. Some (Inr (repo_save (t\<lparr>parentTaskId := newParentTaskId\<rparr>) s))))"

section \<open>TaskBlockingService\<close>

definition owned_ids :: "store \<Rightarrow> nat \<Rightarrow> nat set" where
  "owned_ids s u = {i. findOne s i u \<noteq> None}"

lemma owned_ids_subset: "owned_ids s u \<subseteq> task_id ` set (tasks s)"
  by (auto simp: owned_ids_def findOne_def split: option.splits dest!: findById_SomeD)

lemma finite_owned_ids: "finite (owned_ids s u)"
  by (rule finite_subset[OF owned_ids_subset]) simp

function doesTaskEventuallyBlock :: "store \<Rightarrow> nat \<Rightarrow> nat \<Rightarrow> nat \<Rightarrow> nat set \<Rightarrow> bool" where
  "doesTaskEventuallyBlock s taskAId taskBId u visited =
     (if taskAId \<in> visited then False
      else
        (case findOne s taskAId u of
           None \<Rightarrow> False
         | Some taskA \<Rightarrow>
             if \<exists>blockedTask \<in> set (blocks_of s taskAId). task_id blockedTask = taskBId then True
             else \<exists>blockedTask \<in> set (blocks_of s taskAId).
                    doesTaskEventuallyBlock s (task_id blockedTask) taskBId u (insert taskAId visited)))"
  by pat_completeness auto
termination
proof (relation "measure (\<lambda>(s, a, b, u, visited). card (owned_ids s u - visited))", goal_cases)
  case 1
  then show ?case by simp
next
  case (2 s taskAId taskBId u visited taskA blockedTask)
  then have "taskAId \<in> owned_ids s u - visited"
    by (simp add: owned_ids_def)
  then have "card (owned_ids s u - insert taskAId visited) < card (owned_ids s u - visited)"
    by (metis Diff_insert card_Diff1_less finite_Diff finite_owned_ids)
  then show ?case by simp
qed

declare doesTaskEventuallyBlock.simps [simp del]

definition validateNoCircularBlocking :: "store \<Rightarrow> nat \<Rightarrow> nat \<Rightarrow> nat \<Rightarrow> error + unit" where
  "validateNoCircularBlocking s blockingTaskId blockedTaskId u =
     (if doesTaskEventuallyBlock s blockedTaskId blockingTaskId u {}
      then Inl CircularDependency else Inr ())"

partial_function (option) isAncestor :: "store \<Rightarrow> nat \<Rightarrow> nat \<Rightarrow> nat \<Rightarrow> bool option" where
  "isAncestor s taskAId taskBId u =
     (case findOne s taskBId u of
        None \<Rightarrow> Some False
      | Some taskB \<Rightarrow>
          (case parentTask s taskB of
             None \<Rightarrow> Some False
           | Some p \<Rightarrow>
               if task_id p = taskAId then Some True
               else isAncestor s taskAId (task_id p) u))"

definition validateNoHierarchyConflict :: "store \<Rightarrow> nat \<Rightarrow> nat \<Rightarrow> nat \<Rightarrow> (error + unit) option" where
  "validateNoHierarchyConflict s blockingTaskId blockedTaskId u =
     (case isAncestor s blockingTaskId blockedTaskId u of
        None \<Rightarrow> None
      | Some isParentBlocking \<Rightarrow>
          if isParentBlocking then Some (Inl InvalidRelationship)
          else
            (case isAncestor s blockedTaskId blockingTaskId u of
               None \<Rightarrow> None
             | Some isChildBlocking \<Rightarrow>
                 if isChildBlocking then Some (Inl InvalidRelationship) else Some (Inr ())))"

definition validateBlockingRules :: "store \<Rightarrow> Task \<Rightarrow> Task \<Rightarrow> nat \<Rightarrow> (error + unit) option" where
  "validateBlockingRules s blockingTask blockedTask u =
     (if completed blockingTask then Some (Inl InvalidRelationship)
      else if truthy (parentRecurrencyId blockingTask) then Some (Inl InvalidRelationship)
      else if truthy (parentRecurrencyId blockedTask) then Some (Inl InvalidRelationship)
      else if recurrencePattern blockingTask \<noteq> None then Some (Inl InvalidRelationship)
      else if recurrencePattern blockedTask \<noteq> None then Some (Inl InvalidRelationship)
      else bindR (validateNoHierarchyConflict s (task_id blockingTask) (task_id blockedTask) u)
             (\<lambda>_. if scheduledTime blockingTask > scheduledTime blockedTask
                   then Some (Inl InvalidRelationship) else Some (Inr ())))"

definition addBlockingRelationship :: "nat \<Rightarrow> nat \<Rightarrow> nat \<Rightarrow> store \<Rightarrow> (error + store) option" where
  "addBlockingRelationship blockingTaskId blockedTaskId u s =
     (case findOne s blockingTaskId u of
        None \<Rightarrow> Some (Inl NotFound)
      | Some blockingTask \<Rightarrow>
          (case findOne s blockedTaskId u of
             None \<Rightarrow> Some (Inl NotFound)
           | Some blockedTask \<Rightarrow>
               if blockingTaskId = blockedTaskId then Some (Inl SelfReference)
               else if \<exists>t \<in> set (blocks_of s blockingTaskId). task_id t = blockedTaskId
               then Some (Inl DuplicateRelationship)
               else
                 bindR (Some (validateNoCircularBlocking s blockingTaskId blockedTaskId u))
                   (\<lambda>_. bindR (validateBlockingRules s blockingTask blockedTask u)
                     (\<lambda>_. Some (Inr (s\<lparr>blocks := blocks s @ [(blockingTaskId, blockedTaskId)]\<rparr>))))))"

definition removeBlockingRelationship :: "nat \<Rightarrow> nat \<Rightarrow> nat \<Rightarrow> store \<Rightarrow> error + store" where
  "removeBlockingRelationship blockingTaskId blockedTaskId u s =
     (case findOne s blockingTaskId u of
        None \<Rightarrow> Inl NotFound
      | Some blockingTask \<Rightarrow>
          Inr (s\<lparr>blocks := filter (\<lambda>e. e \<noteq> (blockingTaskId, blockedTaskId)) (blocks s)\<rparr>))"

definition getBlockingTasks :: "store \<Rightarrow> nat \<Rightarrow> nat \<Rightarrow> error + Task list" where
  "getBlockingTasks s taskId u =
     (case findOne s taskId u of
        None \<Rightarrow> Inl NotFound
      | Some t \<Rightarrow> Inr (blockedBy s taskId))"

definition validateTaskCanBeCompleted :: "store \<Rightarrow> nat \<Rightarrow> nat \<Rightarrow> error + unit" where
  "validateTaskCanBeCompleted s taskId u =
     (case getBlockingTasks s taskId u of
        Inl e \<Rightarrow> Inl e
      | Inr blockingTasks \<Rightarrow>
          (let incompleteBlockingTasks = filter (\<lambda>t. \<not> completed t) blockingTasks
           in if length incompleteBlockingTasks > 0
              then Inl (BlockedByDependency (map title incompleteBlockingTasks))
              else Inr ()))"

section \<open>Dates\<close>

text \<open>
  The arithmetic of \<open>Date\<close> that \<open>getNextScheduledTime\<close> uses, after the definitions of
  ECMAScript (Day, DayFromYear, YearFromTime, MonthFromTime, DateFromTime, MakeDay), with
  the local time zone taken to be UTC: \<open>setDate\<close>, \<open>setMonth\<close> and \<open>setFullYear\<close>
  work on local calendar fields, and under UTC a calendar day is \<open>msPerDay\<close> long.
\<close>

definition msPerDay :: int where
  "msPerDay = 86400000"

definition DayFromYear :: "int \<Rightarrow> int" where
  "DayFromYear y = 365 * (y - 1970) + (y - 1969) div 4 - (y - 1901) div 100 + (y - 1601) div 400"

lemma div_succ_bounds:
  fixes a k :: int
  assumes "0 < k"
  shows "a div k \<le> (a + 1) div k" "(a + 1) div k \<le> a div k + 1"
proof -
  show "a div k \<le> (a + 1) div k"
    using assms by (intro zdiv_mono1) auto
  have "(a + 1) div k \<le> (a + k) div k"
    using assms by (intro zdiv_mono1) auto
  also have "\<dots> = a div k + 1"
    using assms div_add_self2[of k a] by simp
  finally show "(a + 1) div k \<le> a div k + 1" .
qed

lemma DayFromYear_step: "DayFromYear y + 364 \<le> DayFromYear (y + 1)"
proof -
  define a a' b b' c c' where
    "a = (y - 1969) div 4" and "a' = (y + 1 - 1969) div 4" and
    "b = (y - 1901) div 100" and "b' = (y + 1 - 1901) div 100" and
    "c = (y - 1601) div 400" and "c' = (y + 1 - 1601) div 400"
  have "a \<le> a'"
    unfolding a_def a'_def using div_succ_bounds(1)[of 4 "y - 1969"] by (simp add: algebra_simps)
  moreover have "b' \<le> b + 1"
    unfolding b_def b'_def using div_succ_bounds(2)[of 100 "y - 1901"] by (simp add: algebra_simps)
  moreover have "c \<le> c'"
    unfolding c_def c'_def using div_succ_bounds(1)[of 400 "y - 1601"] by (simp add: algebra_simps)
  moreover have "DayFromYear y = 365 * (y - 1970) + a - b + c"
    by (simp add: DayFromYear_def a_def b_def c_def)
  moreover have "DayFromYear (y + 1) = 365 * (y + 1 - 1970) + a' - b' + c'"
    unfolding DayFromYear_def a'_def b'_def c'_def by (rule refl)
  ultimately show ?thesis by (simp add: algebra_simps)
qed

function yearDown :: "int \<Rightarrow> int \<Rightarrow> int" where
  "yearDown d y = (if d < DayFromYear y then yearDown d (y - 1) else y)"
  by pat_completeness auto
termination
proof (relation "measure (\<lambda>(d, y). nat (DayFromYear y - d))", goal_cases)
  case 1
  then show ?case by simp
next
  case (2 d y)
  then show ?case using DayFromYear_step[of "y - 1"] by simp
qed

function yearUp :: "int \<Rightarrow> int \<Rightarrow> int" where
  "yearUp d y = (if DayFromYear (y + 1) \<le> d then yearUp d (y + 1) else y)"
  by pat_completeness auto
termination
proof (relation "measure (\<lambda>(d, y). nat (d + 1 - DayFromYear (y + 1)))", goal_cases)
  case 1
  then show ?case by simp
next
  case (2 d y)
  then show ?case using DayFromYear_step[of "y + 1"] by simp
qed

declare yearDown.simps [simp del] yearUp.simps [simp del]

definition YearFromDay :: "int \<Rightarrow> int" where
  "YearFromDay d = yearUp d (yearDown d (1970 + d div 365))"

definition InLeapYear :: "int \<Rightarrow> bool" where
  "InLeapYear y = (y mod 4 = 0 \<and> (y mod 100 \<noteq> 0 \<or> y mod 400 = 0))"

definition monthStart :: "bool \<Rightarrow> nat \<Rightarrow> int" where
  "monthStart leap m =
     (let l = (if leap then 1 else 0)
      in [0, 31, 59 + l, 90 + l, 120 + l, 151 + l, 181 + l, 212 + l, 243 + l, 273 + l,
          304 + l, 334 + l] ! m)"

definition MonthInYear :: "bool \<Rightarrow> int \<Rightarrow> nat" where
  "MonthInYear leap dayWithinYear =
     length (filter (\<lambda>m. monthStart leap m \<le> dayWithinYear) [1..<12])"

definition MakeDay :: "int \<Rightarrow> int \<Rightarrow> int \<Rightarrow> int" where
  "MakeDay year month date =
     (let ym = year + month div 12; mn = nat (month mod 12)
      in DayFromYear ym + monthStart (InLeapYear ym) mn + date - 1)"

definition getFullYear :: "int \<Rightarrow> int" where
  "getFullYear t = YearFromDay (t div msPerDay)"

definition getMonth :: "int \<Rightarrow> nat" where
  "getMonth t = MonthInYear (InLeapYear (getFullYear t)) (t div msPerDay - DayFromYear (getFullYear t))"

definition getDate :: "int \<Rightarrow> int" where
  "getDate t =
     t div msPerDay - DayFromYear (getFullYear t)
       - monthStart (InLeapYear (getFullYear t)) (getMonth t) + 1"

definition setDate :: "int \<Rightarrow> int \<Rightarrow> int" where
  "setDate t date = MakeDay (getFullYear t) (int (getMonth t)) date * msPerDay + t mod msPerDay"

definition setMonth :: "int \<Rightarrow> int \<Rightarrow> int" where
  "setMonth t month = MakeDay (getFullYear t) month (getDate t) * msPerDay + t mod msPerDay"

definition setFullYear :: "int \<Rightarrow> int \<Rightarrow> int" where
  "setFullYear t year = MakeDay year (int (getMonth t)) (getDate t) * msPerDay + t mod msPerDay"

section \<open>RecurringTaskService\<close>

definition getOptimalBuffer :: "RecurrencePattern option \<Rightarrow> int" where
  "getOptimalBuffer pattern =
     (case pattern of
        Some DAILY \<Rightarrow> 3
      | Some WEEKLY \<Rightarrow> 14
      | Some MONTHLY \<Rightarrow> 60
      | Some YEARLY \<Rightarrow> 365
      | None \<Rightarrow> 7)"

text \<open>
  \<open>Math.ceil(optimal * 0.3)\<close>, as the ceiling of the exact product; on the five
  values of \<open>getOptimalBuffer\<close> the floating-point product has the same ceiling.
\<close>

definition getMinBuffer :: "RecurrencePattern option \<Rightarrow> int" where
  "getMinBuffer pattern = (getOptimalBuffer pattern * 3 + 9) div 10"

definition countUpcomingInstances :: "store \<Rightarrow> int \<Rightarrow> nat \<Rightarrow> int" where
  "countUpcomingInstances s now parentId =
     int (length (filter (\<lambda>t. parentRecurrencyId t = Some parentId \<and> \<not> completed t
                              \<and> scheduledTime t > now) (tasks s)))"

definition needsMoreInstances :: "store \<Rightarrow> int \<Rightarrow> Task \<Rightarrow> bool" where
  "needsMoreInstances s now parent =
     (countUpcomingInstances s now (task_id parent) < getMinBuffer (recurrencePattern parent))"

definition getNextScheduledTime :: "int \<Rightarrow> RecurrencePattern option \<Rightarrow> nat \<Rightarrow> error + int" where
  "getNextScheduledTime currentTime pattern interval =
     (case pattern of
        Some DAILY \<Rightarrow> Inr (setDate currentTime (getDate currentTime + int interval))
      | Some WEEKLY \<Rightarrow> Inr (setDate currentTime (getDate currentTime + 7 * int interval))
      | Some MONTHLY \<Rightarrow> Inr (setMonth currentTime (int (getMonth currentTime) + int interval))
      | Some YEARLY \<Rightarrow> Inr (setFullYear currentTime (getFullYear currentTime + int interval))
      | None \<Rightarrow> Inl InternalError)"

text \<open>\<open>recurrenceInterval || 1\<close>: \<open>null\<close> and 0 are falsy.\<close>

definition intervalOr1 :: "nat option \<Rightarrow> nat" where
  "intervalOr1 n = (case n of None \<Rightarrow> 1 | Some k \<Rightarrow> if k = 0 then 1 else k)"

text \<open>
  The row \<open>generateInstancesForOptimalBuffer\<close> saves: it sets the title, the description,
  the scheduled time, the owner and the template's id; \<open>completed\<close> takes the column default
  \<open>false\<close> and the nullable columns, the interval among them, stay \<open>NULL\<close>.
\<close>

definition newInstance :: "Task \<Rightarrow> int \<Rightarrow> nat \<Rightarrow> Task" where
  "newInstance parent t i =
     \<lparr>task_id = i, userId = userId parent, title = title parent,
      description = description parent, scheduledTime = t, completed = False,
      recurrencePattern = None, recurrenceInterval = None, recurrenceEndDate = None,
      parentRecurrencyId = Some (task_id parent), parentTaskId = None\<rparr>"

definition saveInstance :: "Task \<Rightarrow> int \<Rightarrow> store \<Rightarrow> store" where
  "saveInstance parent t s =
     (if \<exists>r \<in> set (tasks s). parentRecurrencyId r = Some (task_id parent) \<and> scheduledTime r = t
      then s
      else
        (case repo_insert (newInstance parent t) s of
           (saved, s') \<Rightarrow> emit (RemindersScheduled (task_id saved)) s'))"

partial_function (option) generateLoop :: "Task \<Rightarrow> int \<Rightarrow> int \<Rightarrow> store \<Rightarrow> (error + store) option" where
  "generateLoop parent bufferDate nextScheduledTime s =
     (if nextScheduledTime \<le> bufferDate
      then
        (if (case recurrenceEndDate parent of None \<Rightarrow> False | Some e \<Rightarrow> nextScheduledTime > e)
         then Some (Inr s)
         else
           (case getNextScheduledTime nextScheduledTime (recurrencePattern parent)
                   (intervalOr1 (recurrenceInterval parent)) of
              Inl e \<Rightarrow> Some (Inl e)
            | Inr n \<Rightarrow> generateLoop parent bufferDate n (saveInstance parent nextScheduledTime s)))
      else Some (Inr s))"

definition lastInstanceTime :: "store \<Rightarrow> nat \<Rightarrow> int option" where
  "lastInstanceTime s parentId =
     (case filter (\<lambda>t. parentRecurrencyId t = Some parentId) (tasks s) of
        [] \<Rightarrow> None
      | x # xs \<Rightarrow> Some (fold max (map scheduledTime xs) (scheduledTime x)))"

definition generateInstancesForOptimalBuffer :: "int \<Rightarrow> Task \<Rightarrow> store \<Rightarrow> (error + store) option" where
  "generateInstancesForOptimalBuffer now parent s =
     (let bufferDate = setDate now (getDate now + getOptimalBuffer (recurrencePattern parent))
      in if (case recurrenceEndDate parent of None \<Rightarrow> False | Some e \<Rightarrow> e < now)
         then Some (Inr s)
         else
           (case getNextScheduledTime
                   (case lastInstanceTime s (task_id parent) of
                      Some l \<Rightarrow> l
                    | None \<Rightarrow> scheduledTime parent)
                   (recurrencePattern parent) (intervalOr1 (recurrenceInterval parent)) of
              Inl e \<Rightarrow> Some (Inl e)
            | Inr n \<Rightarrow> generateLoop parent bufferDate n s))"

text \<open>The \<open>try\<close>/\<open>catch\<close> of \<open>onTaskInstanceCompleted\<close> logs an error and returns.\<close>

definition onTaskInstanceCompleted :: "int \<Rightarrow> Task \<Rightarrow> store \<Rightarrow> store option" where
  "onTaskInstanceCompleted now completedInstance s =
     (case parentRecurrencyId completedInstance of
        None \<Rightarrow> Some s
      | Some pid \<Rightarrow>
          if pid = 0 then Some s
          else
            (case findById s pid of
               None \<Rightarrow> Some s
             | Some parent \<Rightarrow>
                 if recurrencePattern parent = None then Some s
                 else if needsMoreInstances s now parent
                 then
                   (case generateInstancesForOptimalBuffer now parent s of
                      None \<Rightarrow> None
                    | Some (Inl e) \<Rightarrow> Some s
                    | Some (Inr s') \<Rightarrow> Some s')
                 else Some s))"

definition createRecurringTask :: "CreateTaskDto \<Rightarrow> nat \<Rightarrow> int \<Rightarrow> store \<Rightarrow> (error + Task \<times> store) option" where
  "createRecurringTask dto u now s =
     (case repo_insert
             (\<lambda>i. \<lparr>task_id = i, userId = u, title = c_title dto,
                    description = c_description dto, scheduledTime = c_scheduledTime dto,
                    completed = False, recurrencePattern = c_recurrencePattern dto,
                    recurrenceInterval = Some (intervalOr1 (c_recurrenceInterval dto)),
                    recurrenceEndDate = c_recurrenceEndDate dto,
                    parentRecurrencyId = None, parentTaskId = None\<rparr>) s of
        (saved, s') \<Rightarrow>
          if recurrencePattern saved \<noteq> None
          then bindR (generateInstancesForOptimalBuffer now saved s') (\<lambda>s''. Some (Inr (saved, s'')))
          else Some (Inr (saved, s')))"

text \<open>\<open>Object.assign(task, dto)\<close>: the fields the dto defines overwrite the row's.\<close>

definition assignDto :: "UpdateTaskDto \<Rightarrow> Task \<Rightarrow> Task" where
  "assignDto dto t =
     t\<lparr>title := (case u_title dto of None \<Rightarrow> title t | Some x \<Rightarrow> x),
       description := (case u_description dto of None \<Rightarrow> description t | Some x \<Rightarrow> Some x),
       scheduledTime := (case u_scheduledTime dto of None \<Rightarrow> scheduledTime t | Some x \<Rightarrow> x),
       completed := (case u_completed dto of None \<Rightarrow> completed t | Some x \<Rightarrow> x),
       recurrencePattern :=
         (case u_recurrencePattern dto of None \<Rightarrow> recurrencePattern t | Some x \<Rightarrow> Some x),
       recurrenceInterval :=
         (case u_recurrenceInterval dto of None \<Rightarrow> recurrenceInterval t | Some x \<Rightarrow> Some x),
       recurrenceEndDate :=
         (case u_recurrenceEndDate dto of None \<Rightarrow> recurrenceEndDate t | Some x \<Rightarrow> Some x),
       parentTaskId := (case u_parentTaskId dto of None \<Rightarrow> parentTaskId t | Some x \<Rightarrow> x)\<rparr>"

text \<open>
  \<open>updateRecurringTask\<close> is called by \<open>update\<close> with the dto and, in it, \<open>scheduledTime\<close>
  and \<open>recurrenceEndDate\<close> set to the parsed date or to \<open>undefined\<close>; \<open>Object.assign\<close>
  copies both onto the loaded object. \<open>save\<close> skips an \<open>undefined\<close> property, so the row
  keeps its column, but the object that goes on to the generation has the dto's values:
  no end date unless the dto gives one, and no scheduled time unless the dto gives one.
  Without a scheduled time and without an instance left, the seed of the generation is
  an invalid date, the loop test is false and nothing is generated. Should the cascade
  of the deletion have removed the row itself, \<open>save\<close> inserts the object, which fails
  on the scheduled time column when the object has none.
\<close>

definition updateRecurringTask :: "nat \<Rightarrow> UpdateTaskDto \<Rightarrow> nat \<Rightarrow> int \<Rightarrow> store \<Rightarrow> (error + store) option" where
  "updateRecurringTask taskId updateData u now s =
     (case findOne s taskId u of
        None \<Rightarrow> Some (Inl InternalError)
      | Some t \<Rightarrow>
          (let scheduleFieldsUpdated =
                 (u_scheduledTime updateData \<noteq> None \<or> u_recurrencePattern updateData \<noteq> None
                  \<or> truthy (u_recurrenceInterval updateData)
                  \<or> u_recurrenceEndDate updateData \<noteq> None);
               s1 = (if recurrencePattern t \<noteq> None \<and> parentRecurrencyId t = None
                        \<and> scheduleFieldsUpdated
                     then repo_delete (\<lambda>r. parentRecurrencyId r = Some taskId
                                   \<and> \<not> completed r \<and> scheduledTime r > now) s
                     else s);
               row = assignDto updateData t;
               updatedTask = row\<lparr>recurrenceEndDate := u_recurrenceEndDate updateData\<rparr>
           in bindR (case findById s1 taskId of
                       Some _ \<Rightarrow> Some (Inr (repo_save row s1))
                     | None \<Rightarrow>
                         if u_scheduledTime updateData = None then Some (Inl InternalError)
                         else Some (Inr (s1\<lparr>tasks := tasks s1 @ [updatedTask]\<rparr>)))
                (\<lambda>s2. if recurrencePattern updatedTask \<noteq> None
                         \<and> parentRecurrencyId updatedTask = None \<and> scheduleFieldsUpdated
                      then
                        if u_scheduledTime updateData = None \<and> lastInstanceTime s2 taskId = None
                        then Some (Inr s2)
                        else generateInstancesForOptimalBuffer now updatedTask s2
                      else Some (Inr s2))))"

section \<open>TasksService\<close>

definition create :: "CreateTaskDto \<Rightarrow> nat \<Rightarrow> int \<Rightarrow> store \<Rightarrow> (error + Task \<times> store) option" where
  "create dto u now s =
     (if c_recurrencePattern dto \<noteq> None \<and> truthy (c_parentTaskId dto)
      then Some (Inl InvalidRelationship)
      else
        bindR (case c_parentTaskId dto of
                 None \<Rightarrow> Some (Inr ())
               | Some p \<Rightarrow>
                   if p = 0 then Some (Inr ())
                   else
                     (case validateChildDueDate s (c_scheduledTime dto) p u of
                        Inl e \<Rightarrow> Some (Inl e)
                      | Inr _ \<Rightarrow>
                          (case findOne s p u of
                             None \<Rightarrow> Some (Inr ())
                           | Some parent \<Rightarrow>
                               if recurrencePattern parent \<noteq> None
                               then Some (Inl InvalidRelationship)
                               else if truthy (parentRecurrencyId parent)
                               then Some (Inl InvalidRelationship)
                               else Some (Inr ()))))
          (\<lambda>_. if c_recurrencePattern dto \<noteq> None
                then bindR (createRecurringTask dto u now s)
                       (\<lambda>(saved, s').
                          Some (Inr (saved, emit (TaskCreatedNotification (task_id saved) u (title saved)) s')))
                else
                  (case repo_insert
                          (\<lambda>i. \<lparr>task_id = i, userId = u, title = c_title dto,
                                 description = c_description dto,
                                 scheduledTime = c_scheduledTime dto, completed = False,
                                 recurrencePattern = c_recurrencePattern dto,
                                 recurrenceInterval = c_recurrenceInterval dto,
                                 recurrenceEndDate = c_recurrenceEndDate dto,
                                 parentRecurrencyId = None,
                                 parentTaskId = c_parentTaskId dto\<rparr>) s of
                     (saved, s') \<Rightarrow>
                       Some (Inr (saved,
                         emit (RemindersScheduled (task_id saved))
                           (emit (TaskCreatedNotification (task_id saved) u (title saved)) s'))))))"

text \<open>The checks of \<open>update\<close> on a change of parent or of scheduled time.\<close>

definition validateParentChange :: "store \<Rightarrow> nat \<Rightarrow> UpdateTaskDto \<Rightarrow> Task \<Rightarrow> nat \<Rightarrow> (error + unit) option" where
  "validateParentChange s i dto t u =
     (case u_parentTaskId dto of
        Some None \<Rightarrow> Some (Inr ())
      | Some (Some p) \<Rightarrow>
          (let parent = findOne s p u
           in if (case parent of None \<Rightarrow> False | Some pt \<Rightarrow> recurrencePattern pt \<noteq> None)
              then Some (Inl InvalidRelationship)
              else if (case parent of None \<Rightarrow> False | Some pt \<Rightarrow> truthy (parentRecurrencyId pt))
              then Some (Inl InvalidRelationship)
              else
                bindR (validateNoCircularDependency s i p u)
                  (\<lambda>_. Some (validateChildDueDate s
                          (case u_scheduledTime dto of Some x \<Rightarrow> x | None \<Rightarrow> scheduledTime t)
                          p u)))
      | None \<Rightarrow>
          (case u_scheduledTime dto of
             None \<Rightarrow> Some (Inr ())
           | Some x \<Rightarrow>
               (case parentTaskId t of
                  None \<Rightarrow> Some (Inr ())
                | Some p \<Rightarrow>
                    if p = 0 then Some (Inr ())
                    else Some (validateChildDueDate s x p u))))"

text \<open>
  The save of a task that is not a template, and what follows it. \<open>update\<close> has loaded
  the row with its \<open>parentTask\<close> relation, and \<open>save\<close> takes a join column from the loaded
  relation object when there is one: the \<open>parentTaskId\<close> that \<open>Object.assign\<close> has set
  reaches the table only when the task had no parent row.
\<close>

definition updateRegular :: "nat \<Rightarrow> UpdateTaskDto \<Rightarrow> Task \<Rightarrow> nat \<Rightarrow> int \<Rightarrow> store \<Rightarrow> store option" where
  "updateRegular i dto t u now s =
     (let wasCompleted = completed t;
          updatedTask = assignDto dto t;
          s1 = repo_save (case parentTask s t of
                            None \<Rightarrow> updatedTask
                          | Some _ \<Rightarrow> updatedTask\<lparr>parentTaskId := parentTaskId t\<rparr>) s
      in Option.bind
           (if \<not> wasCompleted \<and> u_completed dto = Some True
            then
              Option.bind
                (onTaskInstanceCompleted now updatedTask
                   (emit (TaskCompletedNotification (task_id updatedTask) u (title updatedTask)) s1))
                (\<lambda>s2. Some (checkAndCompleteParentTasks i u s2))
            else Some s1)
           (\<lambda>s3. if u_scheduledTime dto \<noteq> None \<and> \<not> completed updatedTask
                  then Some (emit (RemindersScheduled (task_id updatedTask)) s3)
                  else Some s3))"

definition update :: "nat \<Rightarrow> UpdateTaskDto \<Rightarrow> nat \<Rightarrow> int \<Rightarrow> store \<Rightarrow> (error + store) option" where
  "update i dto u now s =
     (case findOne s i u of
        None \<Rightarrow> Some (Inl NotFound)
      | Some t \<Rightarrow>
          if u_recurrencePattern dto \<noteq> None \<and> truthy (parentTaskId t)
          then Some (Inl InvalidRelationship)
          else if u_recurrencePattern dto \<noteq> None \<and> length (children s i) > 0
          then Some (Inl InvalidRelationship)
          else if (case u_parentTaskId dto of None \<Rightarrow> False | Some p \<Rightarrow> truthy p)
                  \<and> recurrencePattern t \<noteq> None
          then Some (Inl InvalidRelationship)
          else
            bindR (if u_completed dto = Some True \<and> \<not> completed t
                   then
                     (case validateParentCompletion s i u of
                        Inl e \<Rightarrow> Some (Inl e)
                      | Inr _ \<Rightarrow> Some (validateTaskCanBeCompleted s i u))
                   else Some (Inr ()))
              (\<lambda>_. bindR (validateParentChange s i dto t u)
                (\<lambda>_. if recurrencePattern t \<noteq> None \<and> parentRecurrencyId t = None
                      then updateRecurringTask i dto u now s
                      else
                        (case updateRegular i dto t u now s of
                           None \<Rightarrow> None
                         | Some s' \<Rightarrow> Some (Inr s')))))"

definition emptyDto :: UpdateTaskDto where
  "emptyDto =
     \<lparr>u_title = None, u_description = None, u_scheduledTime = None, u_completed = None,
      u_recurrencePattern = None, u_recurrenceInterval = None, u_recurrenceEndDate = None,
      u_parentTaskId = None\<rparr>"

definition markAsCompleted :: "nat \<Rightarrow> nat \<Rightarrow> int \<Rightarrow> store \<Rightarrow> (error + store) option" where
  "markAsCompleted i u now s =
     (case validateParentCompletion s i u of
        Inl e \<Rightarrow> Some (Inl e)
      | Inr _ \<Rightarrow>
          (case validateTaskCanBeCompleted s i u of
             Inl e \<Rightarrow> Some (Inl e)
           | Inr _ \<Rightarrow>
               bindR (update i (emptyDto\<lparr>u_completed := Some True\<rparr>) u now s)
                 (\<lambda>s'. Some (Inr (checkAndCompleteParentTasks i u s')))))"

definition markAsIncomplete :: "nat \<Rightarrow> nat \<Rightarrow> int \<Rightarrow> store \<Rightarrow> (error + store) option" where
  "markAsIncomplete i u now s = update i (emptyDto\<lparr>u_completed := Some False\<rparr>) u now s"

section \<open>Notions used in the properties\<close>



text \<open>
  What \<open>addBlockingRelationship\<close> keeps true of the join table: an edge joins two existing
  tasks of one owner.
\<close>

definition edges_consistent :: "store \<Rightarrow> bool" where
  "edges_consistent s =
     (\<forall>(a, b) \<in> set (blocks s).
        \<exists>ta tb. findById s a = Some ta \<and> findById s b = Some tb \<and> userId ta = userId tb)"

text \<open>The edges whose source is not in \<open>V\<close>.\<close>

definition edges_avoiding :: "store \<Rightarrow> nat set \<Rightarrow> (nat \<times> nat) set" where
  "edges_avoiding s V = {(x, y). (x, y) \<in> set (blocks s) \<and> x \<notin> V}"

text \<open>The time one recurrence step after \<open>t\<close>, for a pattern that is set.\<close>

definition nextTime :: "RecurrencePattern \<Rightarrow> nat \<Rightarrow> int \<Rightarrow> int" where
  "nextTime p k t = (case getNextScheduledTime t (Some p) k of Inr n \<Rightarrow> n | Inl e \<Rightarrow> t)"

text \<open>A candidate time is generated when it is within the horizon and the end date.\<close>

definition withinLimits :: "Task \<Rightarrow> int \<Rightarrow> int \<Rightarrow> bool" where
  "withinLimits parent bufferDate c =
     (c \<le> bufferDate \<and> (case recurrenceEndDate parent of None \<Rightarrow> True | Some e \<Rightarrow> c \<le> e))"


text \<open>
  The seed of a generation is the latest instance's time, or the template's own when it has
  no instance; candidate \<open>j\<close> is \<open>j + 1\<close> recurrence steps after the seed.
\<close>

definition seedTime :: "store \<Rightarrow> Task \<Rightarrow> int" where
  "seedTime s parent =
     (case lastInstanceTime s (task_id parent) of Some l \<Rightarrow> l | None \<Rightarrow> scheduledTime parent)"

definition candidate :: "store \<Rightarrow> Task \<Rightarrow> nat \<Rightarrow> int" where
  "candidate s parent j =
     (case recurrencePattern parent of
        None \<Rightarrow> seedTime s parent
      | Some p \<Rightarrow> (nextTime p (intervalOr1 (recurrenceInterval parent)) ^^ Suc j) (seedTime s parent))"

text \<open>
  The store with \<open>m\<close> new instances of a template appended, at the given times, with the
  next ids, and a reminder call for each.
\<close>

definition withInstances :: "store \<Rightarrow> Task \<Rightarrow> (nat \<Rightarrow> int) \<Rightarrow> nat \<Rightarrow> store" where
  "withInstances s parent time m =
     s\<lparr>tasks := tasks s @ map (\<lambda>j. newInstance parent (time j) (nextId s + j)) [0..<m],
       nextId := nextId s + m,
       events := events s @ map (\<lambda>j. RemindersScheduled (nextId s + j)) [0..<m]\<rparr>"




section \<open>Example stores\<close>

text \<open>Plain tasks and small stores, for the concrete scenarios below.\<close>

definition mkTask :: "nat \<Rightarrow> nat \<Rightarrow> string \<Rightarrow> int \<Rightarrow> bool \<Rightarrow> nat option \<Rightarrow> Task" where
  "mkTask i u ttl t c p =
     \<lparr>task_id = i, userId = u, title = ttl, description = None, scheduledTime = t,
      completed = c, recurrencePattern = None, recurrenceInterval = Some 1,
      recurrenceEndDate = None, parentRecurrencyId = None, parentTaskId = p\<rparr>"

definition mkStore :: "Task list \<Rightarrow> (nat \<times> nat) list \<Rightarrow> store" where
  "mkStore ts es = \<lparr>tasks = ts, blocks = es, nextId = Suc (fold max (map task_id ts) 0), events = []\<rparr>"

definition plainDto :: "string \<Rightarrow> int \<Rightarrow> nat option \<Rightarrow> CreateTaskDto" where
  "plainDto ttl t p =
     \<lparr>c_title = ttl, c_description = None, c_scheduledTime = t, c_parentTaskId = p,
      c_recurrencePattern = None, c_recurrenceInterval = Some 1, c_recurrenceEndDate = None\<rparr>"

definition storeAB :: store where
  "storeAB = mkStore [mkTask 1 7 ''A'' 10 False None, mkTask 2 7 ''B'' 20 False None] []"

definition storePC :: store where
  "storePC = mkStore [mkTask 1 7 ''P'' 20 False None, mkTask 2 7 ''C'' 10 False (Some 1)] []"

definition storePC_done :: store where
  "storePC_done =
     \<lparr>tasks = [mkTask 1 7 ''P'' 20 True None, mkTask 2 7 ''C'' 10 True (Some 1)],
      blocks = [], nextId = 3, events = [TaskCompletedNotification 2 7 ''C'']\<rparr>"

definition hour :: int where
  "hour = 3600000"

definition dailyDto :: CreateTaskDto where
  "dailyDto =
     \<lparr>c_title = ''T'', c_description = None, c_scheduledTime = 9 * hour, c_parentTaskId = None,
      c_recurrencePattern = Some DAILY, c_recurrenceInterval = Some 1, c_recurrenceEndDate = None\<rparr>"

definition dailyTemplate :: Task where
  "dailyTemplate =
     \<lparr>task_id = 1, userId = 7, title = ''T'', description = None, scheduledTime = 9 * hour,
      completed = False, recurrencePattern = Some DAILY, recurrenceInterval = Some 1,
      recurrenceEndDate = None, parentRecurrencyId = None, parentTaskId = None\<rparr>"

definition emptyStore :: store where
  "emptyStore = \<lparr>tasks = [], blocks = [], nextId = 1, events = []\<rparr>"


definition storeRT :: store where
  "storeRT = mkStore [dailyTemplate, mkTask 2 7 ''T2'' hour False None] []"


definition storeABC :: store where
  "storeABC =
     mkStore [mkTask 1 7 ''A'' 10 False None, mkTask 2 7 ''B'' 20 False None,
              mkTask 3 7 ''C'' 30 False None] [(1, 2), (2, 3)]"

definition weeklyDto :: CreateTaskDto where
  "weeklyDto =
     \<lparr>c_title = ''W'', c_description = None, c_scheduledTime = 9 * hour, c_parentTaskId = None,
      c_recurrencePattern = Some WEEKLY, c_recurrenceInterval = Some 1, c_recurrenceEndDate = None\<rparr>"

definition weeklyTemplate :: Task where
  "weeklyTemplate =
     \<lparr>task_id = 1, userId = 7, title = ''W'', description = None, scheduledTime = 9 * hour,
      completed = False, recurrencePattern = Some WEEKLY, recurrenceInterval = Some 1,
      recurrenceEndDate = None, parentRecurrencyId = None, parentTaskId = None\<rparr>"

definition weeklyStore :: store where
  "weeklyStore =
     \<lparr>tasks = [weeklyTemplate,
                newInstance weeklyTemplate (9 * hour + 7 * msPerDay) 2,
                newInstance weeklyTemplate (9 * hour + 14 * msPerDay) 3],
      blocks = [], nextId = 4,
      events = [RemindersScheduled 2, RemindersScheduled 3, TaskCreatedNotification 1 7 ''W'']\<rparr>"

definition storeCross :: store where
  "storeCross =
     mkStore [mkTask 1 7 ''A'' 20 False None, mkTask 2 8 ''X'' 20 False None,
              mkTask 3 7 ''B'' 10 False None] [(1, 2), (2, 3)]"

section \<open>Evaluation and lookup lemmas\<close>

lemmas repo_defs = findById_def findOne_def parentTask_def children_def blocks_of_def
  blockedBy_def repo_save_def repo_insert_def repo_update_completed_def emit_def truthy_def
  bindR_def mkTask_def mkStore_def

lemmas blocking_defs = addBlockingRelationship_def validateNoCircularBlocking_def
  doesTaskEventuallyBlock.simps validateBlockingRules_def validateNoHierarchyConflict_def
  isAncestor.simps
  validateTaskCanBeCompleted_def getBlockingTasks_def

lemmas hierarchy_defs = validateChildDueDate_def validateNoCircularDependency_def
  isDescendant.simps validateParentCompletion_def checkAndCompleteParentTasks.simps
  moveTask_def

lemmas tasks_defs = update_def updateRegular_def validateParentChange_def assignDto_def
  emptyDto_def markAsCompleted_def markAsIncomplete_def onTaskInstanceCompleted_def
  updateRecurringTask_def create_def

lemma findOne_SomeD: "findOne s i u = Some t \<Longrightarrow> t \<in> set (tasks s) \<and> task_id t = i \<and> userId t = u"
  by (auto simp: findOne_def split: option.splits if_splits dest: findById_SomeD)

lemma findOne_findById: "findOne s i u = Some t \<Longrightarrow> findById s i = Some t"
  by (auto simp: findOne_def split: option.splits if_splits)

lemma storeAB_add:
  "addBlockingRelationship 1 2 7 storeAB = Some (Inr (storeAB\<lparr>blocks := [(1, 2)]\<rparr>))"
  by (simp add: storeAB_def repo_defs blocking_defs)

lemma storeAB_find: "findOne storeAB 1 7 = Some (mkTask 1 7 ''A'' 10 False None)"
  by code_simp

lemma storePC_cascade: "markAsCompleted 2 7 now storePC = Some (Inr storePC_done)"
  by (simp add: storePC_def storePC_done_def repo_defs blocking_defs hierarchy_defs tasks_defs)

lemma storePC_done_find: "findOne storePC_done 2 7 = Some (mkTask 2 7 ''C'' 10 True (Some 1))"
  by (simp add: storePC_done_def repo_defs)

text \<open>
  With unique ids, the lookup by id and owner is the first row that has both.
\<close>

lemma findOne_unique_ids:
  assumes "distinct (map task_id (tasks s))"
  shows "findOne s i u = find (\<lambda>t. task_id t = i \<and> userId t = u) (tasks s)"
proof (cases "findById s i")
  case None
  then have "\<forall>t \<in> set (tasks s). task_id t \<noteq> i"
    by (auto simp: findById_def find_None_iff)
  then have "find (\<lambda>t. task_id t = i \<and> userId t = u) (tasks s) = None"
    by (auto simp: find_None_iff)
  with None show ?thesis by (simp add: findOne_def)
next
  case (Some t)
  then have t: "t \<in> set (tasks s)" "task_id t = i"
    using findById_SomeD by blast+
  have inj: "inj_on task_id (set (tasks s))"
    using assms by (simp add: distinct_map)
  have uniq: "r = t" if "r \<in> set (tasks s)" "task_id r = i" for r
    using inj that t by (auto dest: inj_onD)
  show ?thesis
  proof (cases "userId t = u")
    case True
    have "find (\<lambda>r. task_id r = i \<and> userId r = u) (tasks s) = Some t"
    proof (cases "find (\<lambda>r. task_id r = i \<and> userId r = u) (tasks s)")
      case None
      then show ?thesis using t True by (auto simp: find_None_iff)
    next
      case (Some r)
      then have "r \<in> set (tasks s)" "task_id r = i"
        by (auto simp: find_Some_iff)
      then show ?thesis using uniq Some by simp
    qed
    with Some True show ?thesis by (simp add: findOne_def)
  next
    case False
    have "find (\<lambda>r. task_id r = i \<and> userId r = u) (tasks s) = None"
      using uniq False by (auto simp: find_None_iff)
    with Some False show ?thesis by (simp add: findOne_def)
  qed
qed

lemma update_success_validated:
  assumes "update i dto u now s = Some (Inr s')" "findOne s i u = Some t"
  shows "validateParentChange s i dto t u = Some (Inr ())"
  using assms unfolding update_def bindR_def
  by (auto split: if_splits option.splits sum.splits)

lemma validateChildDueDate_ok:
  "validateChildDueDate s c p u = Inr () \<Longrightarrow> \<exists>q. findOne s p u = Some q \<and> c \<le> scheduledTime q"
  by (auto simp: validateChildDueDate_def split: option.splits if_splits)

lemma validateParentChange_due_date:
  assumes "validateParentChange s i dto t u = Some (Inr ())"
    and "u_parentTaskId dto = Some (Some p)
         \<or> (u_parentTaskId dto = None \<and> u_scheduledTime dto \<noteq> None
            \<and> parentTaskId t = Some p \<and> p \<noteq> 0)"
  shows "\<exists>q. findOne s p u = Some q
           \<and> (case u_scheduledTime dto of Some x \<Rightarrow> x | None \<Rightarrow> scheduledTime t) \<le> scheduledTime q"
  using assms(2)
proof
  assume a: "u_parentTaskId dto = Some (Some p)"
  then have "validateChildDueDate s
               (case u_scheduledTime dto of Some x \<Rightarrow> x | None \<Rightarrow> scheduledTime t) p u = Inr ()"
    using assms(1) unfolding validateParentChange_def bindR_def Let_def
    by (auto split: if_splits option.splits sum.splits)
  then show ?thesis by (rule validateChildDueDate_ok)
next
  assume a: "u_parentTaskId dto = None \<and> u_scheduledTime dto \<noteq> None
            \<and> parentTaskId t = Some p \<and> p \<noteq> 0"
  then obtain x where x: "u_scheduledTime dto = Some x" by blast
  then have "validateChildDueDate s x p u = Inr ()"
    using assms(1) a unfolding validateParentChange_def
    by (auto split: if_splits option.splits sum.splits)
  then show ?thesis using x by (auto dest: validateChildDueDate_ok)
qed

section \<open>The child due-date check\<close>

text \<open>
  C7: the child due-date check fails with \<open>NotFound\<close> when no row has the parent's id or
  the row belongs to another user; for a parent of the user it fails with
  \<open>InvalidRelationship\<close> exactly when the child's time is strictly after the parent's and
  passes otherwise (equal times pass). \<open>create\<close> with such a parent and a later time
  fails with \<open>InvalidRelationship\<close>; a \<open>moveTask\<close> under a new parent that returns
  has found the child no later than the parent, and so has an \<open>update\<close> that sets a
  parent, or that reschedules a task with a parent.
\<close>

theorem validateChildDueDate_cases:
  "(findById s parentId = None \<longrightarrow> validateChildDueDate s childTime parentId u = Inl NotFound)
   \<and> (\<forall>p. findById s parentId = Some p \<longrightarrow>
         (userId p \<noteq> u \<longrightarrow> validateChildDueDate s childTime parentId u = Inl NotFound)
         \<and> (userId p = u \<longrightarrow>
              (validateChildDueDate s childTime parentId u = Inl InvalidRelationship
                 \<longleftrightarrow> childTime > scheduledTime p)
              \<and> (validateChildDueDate s childTime parentId u = Inr ()
                 \<longleftrightarrow> childTime \<le> scheduledTime p)
              \<and> (parentId \<noteq> 0 \<and> c_parentTaskId dto = Some parentId
                  \<and> c_recurrencePattern dto = None \<and> c_scheduledTime dto > scheduledTime p
                  \<longrightarrow> create dto u now s = Some (Inl InvalidRelationship))))
   \<and> (\<forall>s'. parentId \<noteq> 0 \<and> moveTask taskId (Some parentId) u s = Some (Inr s') \<longrightarrow>
         (\<exists>t q. findOne s taskId u = Some t \<and> findOne s parentId u = Some q
                \<and> scheduledTime t \<le> scheduledTime q))
   \<and> (\<forall>s' t udto.
         update taskId udto u now s = Some (Inr s') \<and> findOne s taskId u = Some t
         \<and> (u_parentTaskId udto = Some (Some parentId)
              \<or> (u_parentTaskId udto = None \<and> u_scheduledTime udto \<noteq> None
                 \<and> parentTaskId t = Some parentId \<and> parentId \<noteq> 0)) \<longrightarrow>
         (\<exists>q. findOne s parentId u = Some q
              \<and> (case u_scheduledTime udto of Some x \<Rightarrow> x | None \<Rightarrow> scheduledTime t)
                    \<le> scheduledTime q))"
proof (intro conjI allI impI)
  show "validateChildDueDate s childTime parentId u = Inl NotFound"
    if "findById s parentId = None"
    using that by (simp add: validateChildDueDate_def findOne_def)
next
  fix p
  assume p: "findById s parentId = Some p"
  show "validateChildDueDate s childTime parentId u = Inl NotFound" if "userId p \<noteq> u"
    using that p by (simp add: validateChildDueDate_def findOne_def)
  assume own: "userId p = u"
  show "(validateChildDueDate s childTime parentId u = Inl InvalidRelationship) = (childTime > scheduledTime p)"
    using p own by (simp add: validateChildDueDate_def findOne_def)
  show "(validateChildDueDate s childTime parentId u = Inr ()) = (childTime \<le> scheduledTime p)"
    using p own by (simp add: validateChildDueDate_def findOne_def)
  show "create dto u now s = Some (Inl InvalidRelationship)"
    if "parentId \<noteq> 0 \<and> c_parentTaskId dto = Some parentId
        \<and> c_recurrencePattern dto = None \<and> c_scheduledTime dto > scheduledTime p"
    using that p own
    by (simp add: create_def validateChildDueDate_def findOne_def bindR_def truthy_def)
next
  fix s'
  assume "parentId \<noteq> 0 \<and> moveTask taskId (Some parentId) u s = Some (Inr s')"
  then show "\<exists>t q. findOne s taskId u = Some t \<and> findOne s parentId u = Some q
                \<and> scheduledTime t \<le> scheduledTime q"
    by (auto simp: moveTask_def validateChildDueDate_def bindR_def
             split: option.splits sum.splits if_splits)
next
  fix s' :: store and t :: Task and udto :: UpdateTaskDto
  assume h: "update taskId udto u now s = Some (Inr s') \<and> findOne s taskId u = Some t
         \<and> (u_parentTaskId udto = Some (Some parentId)
              \<or> (u_parentTaskId udto = None \<and> u_scheduledTime udto \<noteq> None
                 \<and> parentTaskId t = Some parentId \<and> parentId \<noteq> 0))"
  then have "validateParentChange s taskId udto t u = Some (Inr ())"
    using update_success_validated by blast
  then show "\<exists>q. findOne s parentId u = Some q
              \<and> (case u_scheduledTime udto of Some x \<Rightarrow> x | None \<Rightarrow> scheduledTime t)
                    \<le> scheduledTime q"
    using h by (intro validateParentChange_due_date) auto
qed

theorem validateChildDueDate_cases_witness:
  "findById (mkStore [mkTask 1 7 ''P'' (1 * msPerDay) False None] []) 1
     = Some (mkTask 1 7 ''P'' (1 * msPerDay) False None)
   \<and> create (plainDto ''C'' (2 * msPerDay) (Some 1)) 7 0
       (mkStore [mkTask 1 7 ''P'' (1 * msPerDay) False None] [])
     = Some (Inl InvalidRelationship)
   \<and> validateChildDueDate (mkStore [mkTask 1 7 ''P'' (1 * msPerDay) False None] [])
       (1 * msPerDay) 1 7 = Inr ()"
  using validateChildDueDate_cases[where s = "mkStore [mkTask 1 7 ''P'' (1 * msPerDay) False None] []"
      and parentId = 1 and childTime = "1 * msPerDay" and u = 7
      and dto = "plainDto ''C'' (2 * msPerDay) (Some 1)" and now = 0 and taskId = 0]
  by (simp add: mkStore_def mkTask_def plainDto_def findById_def msPerDay_def)

section \<open>Removing a blocking edge\<close>

text \<open>
  C8: when the blocking task exists and is the caller's, \<open>removeBlockingRelationship\<close>
  returns without error whether or not the edge is there, the edge is absent afterwards,
  a second removal changes nothing, and removing an absent edge leaves the store as it
  was. After \<open>addBlockingRelationship\<close> has added an edge, removing it gives back the
  store before the addition, on which adding the same edge succeeds again with the same
  result.
\<close>

theorem removeBlockingRelationship_idempotent:
  assumes "findOne s blockingId u = Some t"
  shows "(\<exists>s1. removeBlockingRelationship blockingId blockedId u s = Inr s1
            \<and> (blockingId, blockedId) \<notin> set (blocks s1)
            \<and> tasks s1 = tasks s \<and> events s1 = events s \<and> nextId s1 = nextId s
            \<and> removeBlockingRelationship blockingId blockedId u s1 = Inr s1)
         \<and> ((blockingId, blockedId) \<notin> set (blocks s)
              \<longrightarrow> removeBlockingRelationship blockingId blockedId u s = Inr s)
         \<and> (\<forall>s1. addBlockingRelationship blockingId blockedId u s = Some (Inr s1)
              \<longrightarrow> (blockingId, blockedId) \<in> set (blocks s1)
                  \<and> (\<exists>s2. removeBlockingRelationship blockingId blockedId u s1 = Inr s2
                        \<and> s2 = s
                        \<and> addBlockingRelationship blockingId blockedId u s2 = Some (Inr s1)))"
proof (intro conjI allI impI)
  let ?s1 = "s\<lparr>blocks := filter (\<lambda>e. e \<noteq> (blockingId, blockedId)) (blocks s)\<rparr>"
  have f1: "findOne ?s1 blockingId u = Some t"
    using assms by (simp add: findOne_def findById_def)
  have "removeBlockingRelationship blockingId blockedId u s = Inr ?s1"
    using assms by (simp add: removeBlockingRelationship_def)
  moreover have "removeBlockingRelationship blockingId blockedId u ?s1 = Inr ?s1"
    using f1 by (simp add: removeBlockingRelationship_def)
  ultimately show "\<exists>s1. removeBlockingRelationship blockingId blockedId u s = Inr s1
            \<and> (blockingId, blockedId) \<notin> set (blocks s1)
            \<and> tasks s1 = tasks s \<and> events s1 = events s \<and> nextId s1 = nextId s
            \<and> removeBlockingRelationship blockingId blockedId u s1 = Inr s1"
    by simp
next
  assume "(blockingId, blockedId) \<notin> set (blocks s)"
  then have "filter (\<lambda>e. e \<noteq> (blockingId, blockedId)) (blocks s) = blocks s"
    by (auto simp: filter_id_conv)
  then show "removeBlockingRelationship blockingId blockedId u s = Inr s"
    using assms by (simp add: removeBlockingRelationship_def)
next
  fix s1
  assume add: "addBlockingRelationship blockingId blockedId u s = Some (Inr s1)"
  then obtain tb where tb: "findOne s blockedId u = Some tb"
    by (auto simp: addBlockingRelationship_def assms split: option.splits)
  from add assms tb have nodup: "\<not> (\<exists>r \<in> set (blocks_of s blockingId). task_id r = blockedId)"
    and s1: "s1 = s\<lparr>blocks := blocks s @ [(blockingId, blockedId)]\<rparr>"
    by (auto simp: addBlockingRelationship_def bindR_def split: if_splits option.splits sum.splits)
  have "(blockingId, blockedId) \<notin> set (blocks s)"
    using nodup findOne_SomeD[OF tb] by (auto simp: blocks_of_def)
  then have flt: "filter (\<lambda>e. e \<noteq> (blockingId, blockedId)) (blocks s) = blocks s"
    by (auto simp: filter_id_conv)
  show "(blockingId, blockedId) \<in> set (blocks s1)"
    by (simp add: s1)
  have "findOne s1 blockingId u = Some t"
    using assms by (simp add: s1 findOne_def findById_def)
  then have "removeBlockingRelationship blockingId blockedId u s1 = Inr s"
    by (simp add: removeBlockingRelationship_def s1 flt)
  then show "\<exists>s2. removeBlockingRelationship blockingId blockedId u s1 = Inr s2 \<and> s2 = s
           \<and> addBlockingRelationship blockingId blockedId u s2 = Some (Inr s1)"
    using add by simp
qed

theorem removeBlockingRelationship_idempotent_witness:
  "findOne storeAB 1 7 = Some (mkTask 1 7 ''A'' 10 False None)
   \<and> removeBlockingRelationship 1 2 7 storeAB = Inr storeAB
   \<and> addBlockingRelationship 1 2 7 storeAB = Some (Inr (storeAB\<lparr>blocks := [(1, 2)]\<rparr>))
   \<and> removeBlockingRelationship 1 2 7 (storeAB\<lparr>blocks := [(1, 2)]\<rparr>) = Inr storeAB"
  using removeBlockingRelationship_idempotent[OF storeAB_find, of 2] storeAB_add storeAB_find
  by (simp add: storeAB_def mkStore_def)

section \<open>Marking a task incomplete\<close>

text \<open>
  C10: \<open>markAsIncomplete\<close> on a task of the user always returns, whatever the task's
  children, parent and blocking edges are; it rewrites the row of that id with
  \<open>completed = False\<close> and leaves every other row, the blocking edges and the
  collaborator calls as they were. So a parent completed by the cascade stays completed
  when its child is marked incomplete.
\<close>

theorem markAsIncomplete_frame:
  assumes "findOne s i u = Some t"
  shows "\<exists>s'. markAsIncomplete i u now s = Some (Inr s')
           \<and> tasks s' = map (\<lambda>r. if task_id r = i then t\<lparr>completed := False\<rparr> else r) (tasks s)
           \<and> blocks s' = blocks s \<and> events s' = events s \<and> nextId s' = nextId s
           \<and> (\<forall>r \<in> set (tasks s). task_id r \<noteq> i \<longrightarrow> r \<in> set (tasks s'))"
proof -
  let ?dto = "emptyDto\<lparr>u_completed := Some False\<rparr>"
  have assign: "assignDto ?dto t = t\<lparr>completed := False\<rparr>"
    by (simp add: assignDto_def emptyDto_def)
  have vpc: "validateParentChange s i ?dto t u = Some (Inr ())"
    by (simp add: validateParentChange_def emptyDto_def)
  have rec: "updateRecurringTask i ?dto u now s = Some (Inr (repo_save (t\<lparr>completed := False\<rparr>) s))"
    using assms assign findOne_findById[OF assms]
    by (simp add: updateRecurringTask_def Let_def truthy_def emptyDto_def bindR_def)
  have reg: "updateRegular i ?dto t u now s = Some (repo_save (t\<lparr>completed := False\<rparr>) s)"
    using assign by (simp add: updateRegular_def Let_def emptyDto_def split: option.splits)
  have gate: "(u_completed ?dto = Some True) = False" "u_recurrencePattern ?dto = None"
    "u_parentTaskId ?dto = None"
    by (simp_all add: emptyDto_def)
  have res: "markAsIncomplete i u now s = Some (Inr (repo_save (t\<lparr>completed := False\<rparr>) s))"
    unfolding markAsIncomplete_def update_def
    by (simp only: assms gate vpc rec reg bindR_def option.case sum.case simp_thms if_False if_True
          split: if_splits)
  have tid: "task_id t = i"
    using findOne_SomeD[OF assms] by simp
  show ?thesis
    unfolding res by (auto simp: repo_save_def tid)
qed

theorem markAsIncomplete_frame_witness:
  "markAsCompleted 2 7 0 storePC = Some (Inr storePC_done)
   \<and> findOne storePC_done 2 7 = Some (mkTask 2 7 ''C'' 10 True (Some 1))
   \<and> (\<exists>s'. markAsIncomplete 2 7 0 storePC_done = Some (Inr s')
         \<and> tasks s' = [mkTask 1 7 ''P'' 20 True None, mkTask 2 7 ''C'' 10 False (Some 1)])"
proof -
  obtain s' where "markAsIncomplete 2 7 0 storePC_done = Some (Inr s')"
    and "tasks s' = map (\<lambda>r. if task_id r = 2 then (mkTask 2 7 ''C'' 10 True (Some 1))\<lparr>completed := False\<rparr> else r)
                      (tasks storePC_done)"
    using markAsIncomplete_frame[OF storePC_done_find, of 0] by blast
  then have "\<exists>s'. markAsIncomplete 2 7 0 storePC_done = Some (Inr s')
         \<and> tasks s' = [mkTask 1 7 ''P'' 20 True None, mkTask 2 7 ''C'' 10 False (Some 1)]"
    by (simp add: storePC_done_def mkTask_def)
  then show ?thesis
    using storePC_cascade[of 0] storePC_done_find by simp
qed

lemma getMonth_less: "getMonth t < 12"
proof -
  have "MonthInYear leap d \<le> length [1..<12]" for leap d
    unfolding MonthInYear_def by (rule length_filter_le)
  then have "MonthInYear leap d < 12" for leap d
    using le_imp_less_Suc[of "MonthInYear leap d" 11] by simp
  then show ?thesis
    by (simp add: getMonth_def)
qed

lemma setDate_getDate_add: "setDate t (getDate t + n) = t + n * msPerDay"
proof -
  have m: "int (getMonth t) div 12 = 0" "nat (int (getMonth t) mod 12) = getMonth t"
    using getMonth_less[of t] by simp_all
  have "MakeDay (getFullYear t) (int (getMonth t)) (getDate t + n) = t div msPerDay + n"
    by (simp add: MakeDay_def Let_def m getDate_def)
  moreover have "t div msPerDay * msPerDay + t mod msPerDay = t"
    by simp
  ultimately show ?thesis
    by (simp add: setDate_def algebra_simps)
qed

lemma getNextScheduledTime_DAILY:
  "getNextScheduledTime t (Some DAILY) k = Inr (t + int k * msPerDay)"
  by (simp add: getNextScheduledTime_def setDate_getDate_add)

lemma getNextScheduledTime_WEEKLY:
  "getNextScheduledTime t (Some WEEKLY) k = Inr (t + 7 * int k * msPerDay)"
  by (simp add: getNextScheduledTime_def setDate_getDate_add)

lemma bufferDate_eq:
  "setDate now (getDate now + getOptimalBuffer p) = now + getOptimalBuffer p * msPerDay"
  by (rule setDate_getDate_add)

section \<open>The daily scenario\<close>

text \<open>
  C6: a daily template of interval 1 with no end date and no instance yet, whose scheduled
  time is at or before the moment of generation and less than a day before it, gets exactly
  three instances, one, two and three days after its scheduled time, each with a reminder;
  the fourth candidate lies beyond the horizon of three days from now.
\<close>

theorem daily_template_three_instances:
  assumes pat: "recurrencePattern parent = Some DAILY"
    and int1: "recurrenceInterval parent = Some 1"
    and noend: "recurrenceEndDate parent = None"
    and fresh: "\<forall>r \<in> set (tasks s). parentRecurrencyId r \<noteq> Some (task_id parent)"
    and after: "scheduledTime parent \<le> now"
    and sameday: "now < scheduledTime parent + msPerDay"
  shows "generateInstancesForOptimalBuffer now parent s =
           Some (Inr (s\<lparr>tasks := tasks s @
                         [newInstance parent (scheduledTime parent + msPerDay) (nextId s),
                          newInstance parent (scheduledTime parent + 2 * msPerDay) (nextId s + 1),
                          newInstance parent (scheduledTime parent + 3 * msPerDay) (nextId s + 2)],
                       nextId := nextId s + 3,
                       events := events s @
                         [RemindersScheduled (nextId s), RemindersScheduled (nextId s + 1),
                          RemindersScheduled (nextId s + 2)]\<rparr>))"
proof -
  let ?t0 = "scheduledTime parent"
  let ?b = "now + 3 * msPerDay"
  have d: "msPerDay > 0" by (simp add: msPerDay_def)
  have last: "lastInstanceTime s (task_id parent) = None"
    using fresh by (simp add: lastInstanceTime_def filter_empty_conv[THEN iffD2] split: list.splits)
  have start: "generateInstancesForOptimalBuffer now parent s
               = generateLoop parent ?b (?t0 + msPerDay) s"
    by (simp add: generateInstancesForOptimalBuffer_def setDate_getDate_add pat int1 noend last
          getNextScheduledTime_DAILY intervalOr1_def getOptimalBuffer_def)
  define s1 where "s1 = saveInstance parent (?t0 + msPerDay) s"
  define s2 where "s2 = saveInstance parent (?t0 + 2 * msPerDay) s1"
  define s3 where "s3 = saveInstance parent (?t0 + 3 * msPerDay) s2"
  have s1: "s1 = s\<lparr>tasks := tasks s @ [newInstance parent (?t0 + msPerDay) (nextId s)],
                   nextId := nextId s + 1, events := events s @ [RemindersScheduled (nextId s)]\<rparr>"
    using fresh by (simp add: s1_def saveInstance_def repo_insert_def emit_def Let_def newInstance_def)
  have s2: "s2 = s\<lparr>tasks := tasks s @ [newInstance parent (?t0 + msPerDay) (nextId s),
                                     newInstance parent (?t0 + 2 * msPerDay) (nextId s + 1)],
                   nextId := nextId s + 2,
                   events := events s @ [RemindersScheduled (nextId s), RemindersScheduled (nextId s + 1)]\<rparr>"
    using fresh d by (simp add: s2_def s1 saveInstance_def repo_insert_def emit_def Let_def newInstance_def)
  have s3: "s3 = s\<lparr>tasks := tasks s @ [newInstance parent (?t0 + msPerDay) (nextId s),
                                     newInstance parent (?t0 + 2 * msPerDay) (nextId s + 1),
                                     newInstance parent (?t0 + 3 * msPerDay) (nextId s + 2)],
                   nextId := nextId s + 3,
                   events := events s @ [RemindersScheduled (nextId s), RemindersScheduled (nextId s + 1),
                                         RemindersScheduled (nextId s + 2)]\<rparr>"
    using fresh d by (simp add: s3_def s2 saveInstance_def repo_insert_def emit_def Let_def newInstance_def)
  have l1: "generateLoop parent ?b (?t0 + msPerDay) s = generateLoop parent ?b (?t0 + 2 * msPerDay) s1"
    using after d
    by (subst generateLoop.simps)
       (simp add: noend pat int1 intervalOr1_def getNextScheduledTime_DAILY s1_def ac_simps)
  have l2: "generateLoop parent ?b (?t0 + 2 * msPerDay) s1 = generateLoop parent ?b (?t0 + 3 * msPerDay) s2"
    using after d
    by (subst generateLoop.simps)
       (simp add: noend pat int1 intervalOr1_def getNextScheduledTime_DAILY s2_def ac_simps)
  have l3: "generateLoop parent ?b (?t0 + 3 * msPerDay) s2 = generateLoop parent ?b (?t0 + 4 * msPerDay) s3"
    using after d
    by (subst generateLoop.simps)
       (simp add: noend pat int1 intervalOr1_def getNextScheduledTime_DAILY s3_def ac_simps)
  have l4: "generateLoop parent ?b (?t0 + 4 * msPerDay) s3 = Some (Inr s3)"
    using sameday
    by (subst generateLoop.simps) simp
  have "generateInstancesForOptimalBuffer now parent s = Some (Inr s3)"
    by (simp only: start l1 l2 l3 l4)
  then show ?thesis
    by (simp only: s3)
qed

lemmas recurring_defs = generateInstancesForOptimalBuffer_def generateLoop.simps
  getNextScheduledTime_DAILY getNextScheduledTime_WEEKLY setDate_getDate_add
  getOptimalBuffer_def getMinBuffer_def lastInstanceTime_def saveInstance_def newInstance_def
  intervalOr1_def createRecurringTask_def countUpcomingInstances_def needsMoreInstances_def
  msPerDay_def hour_def

text \<open>
  Created at 08:00 of day 0 for 09:00 of day 0, the template gets two instances only: day 3
  at 09:00 is later than three days from 08:00.
\<close>

theorem daily_template_before_nine_counterexample:
  "create dailyDto 7 (8 * hour) emptyStore =
     Some (Inr (dailyTemplate,
       \<lparr>tasks = [dailyTemplate,
                 newInstance dailyTemplate (9 * hour + msPerDay) 2,
                 newInstance dailyTemplate (9 * hour + 2 * msPerDay) 3],
        blocks = [], nextId = 4,
        events = [RemindersScheduled 2, RemindersScheduled 3, TaskCreatedNotification 1 7 ''T'']\<rparr>))"
  by (simp add: create_def dailyDto_def dailyTemplate_def emptyStore_def repo_defs recurring_defs
        Let_def)

theorem daily_template_three_instances_witness:
  "generateInstancesForOptimalBuffer (10 * hour) dailyTemplate
       \<lparr>tasks = [dailyTemplate], blocks = [], nextId = 2, events = []\<rparr> =
     Some (Inr
       \<lparr>tasks = [dailyTemplate,
                 newInstance dailyTemplate (9 * hour + msPerDay) 2,
                 newInstance dailyTemplate (9 * hour + 2 * msPerDay) 3,
                 newInstance dailyTemplate (9 * hour + 3 * msPerDay) 4],
        blocks = [], nextId = 5,
        events = [RemindersScheduled 2, RemindersScheduled 3, RemindersScheduled 4]\<rparr>)"
  using daily_template_three_instances[of dailyTemplate
      "\<lparr>tasks = [dailyTemplate], blocks = [], nextId = 2, events = []\<rparr>" "10 * hour"]
  by (simp add: dailyTemplate_def hour_def msPerDay_def)









section \<open>Updating a completed task with completed = true\<close>









section \<open>Templates and the hierarchy\<close>

text \<open>
  C5: \<open>create\<close> and \<open>update\<close> refuse a recurring template as the parent, and
  \<open>moveTask\<close> accepts it: after the move the template has a child.
\<close>

theorem moveTask_under_template:
  "create (plainDto ''X'' hour (Some 1)) 7 0 storeRT = Some (Inl InvalidRelationship)
   \<and> update 2 (emptyDto\<lparr>u_parentTaskId := Some (Some 1)\<rparr>) 7 0 storeRT = Some (Inl InvalidRelationship)
   \<and> moveTask 2 (Some 1) 7 storeRT =
       Some (Inr (storeRT\<lparr>tasks := [dailyTemplate, mkTask 2 7 ''T2'' hour False (Some 1)]\<rparr>))
   \<and> children (storeRT\<lparr>tasks := [dailyTemplate, mkTask 2 7 ''T2'' hour False (Some 1)]\<rparr>) 1
       = [mkTask 2 7 ''T2'' hour False (Some 1)]"
  by (simp add: storeRT_def dailyTemplate_def plainDto_def repo_defs hierarchy_defs tasks_defs hour_def)




section \<open>The ancestor walk of the hierarchy cycle check\<close>





lemma successors_iff:
  assumes "edges_consistent s"
  shows "(\<exists>t \<in> set (blocks_of s a). task_id t = y) \<longleftrightarrow> (a, y) \<in> set (blocks s)"
proof
  assume "\<exists>t \<in> set (blocks_of s a). task_id t = y"
  then show "(a, y) \<in> set (blocks s)" by (auto simp: blocks_of_def)
next
  assume e: "(a, y) \<in> set (blocks s)"
  with assms obtain ty where "findById s y = Some ty"
    by (auto simp: edges_consistent_def)
  then have "ty \<in> set (tasks s)" "task_id ty = y"
    using findById_SomeD by blast+
  with e show "\<exists>t \<in> set (blocks_of s a). task_id t = y"
    by (auto simp: blocks_of_def)
qed

lemma successor_owned:
  assumes "edges_consistent s" "(a, y) \<in> set (blocks s)" "findOne s a u = Some ta"
  shows "findOne s y u \<noteq> None"
proof -
  from assms(1,2) obtain ta' ty where
    "findById s a = Some ta'" "findById s y = Some ty" "userId ta' = userId ty"
    by (auto simp: edges_consistent_def)
  with assms(3) show ?thesis
    by (auto simp: findOne_def split: option.splits if_splits)
qed

lemma last_edge_from:
  assumes "(a, b) \<in> R\<^sup>+"
  shows "\<exists>x. (a, x) \<in> R \<and> (x, b) \<in> {(p, q). (p, q) \<in> R \<and> p \<noteq> a}\<^sup>*"
  using assms
proof (induction rule: trancl_induct)
  case (base y)
  then show ?case by blast
next
  case (step y z)
  then obtain x where x: "(a, x) \<in> R" "(x, y) \<in> {(p, q). (p, q) \<in> R \<and> p \<noteq> a}\<^sup>*"
    by blast
  show ?case
  proof (cases "y = a")
    case True
    with step.hyps(2) show ?thesis by blast
  next
    case False
    with step.hyps(2) have "(y, z) \<in> {(p, q). (p, q) \<in> R \<and> p \<noteq> a}" by simp
    with x(2) have "(x, z) \<in> {(p, q). (p, q) \<in> R \<and> p \<noteq> a}\<^sup>*"
      by (rule rtrancl_into_rtrancl)
    with x(1) show ?thesis by blast
  qed
qed

lemma edges_avoiding_insert:
  "edges_avoiding s (insert a V) = {(p, q). (p, q) \<in> edges_avoiding s V \<and> p \<noteq> a}"
  by (auto simp: edges_avoiding_def)

lemma doesTaskEventuallyBlock_reach:
  "edges_consistent s \<Longrightarrow> findOne s a u \<noteq> None \<Longrightarrow>
     doesTaskEventuallyBlock s a b u V \<longleftrightarrow> (a, b) \<in> (edges_avoiding s V)\<^sup>+"
proof (induction s a b u V rule: doesTaskEventuallyBlock.induct)
  case (1 s a b u V)
  note cons = "1.prems"(1)
  show ?case
  proof (cases "a \<in> V")
    case True
    have "(a, b) \<notin> (edges_avoiding s V)\<^sup>+"
    proof
      assume "(a, b) \<in> (edges_avoiding s V)\<^sup>+"
      then obtain x where "(a, x) \<in> edges_avoiding s V"
        by (meson tranclD)
      with True show False by (simp add: edges_avoiding_def)
    qed
    with True show ?thesis by (simp add: doesTaskEventuallyBlock.simps)
  next
    case False
    from "1.prems"(2) obtain ta where ta: "findOne s a u = Some ta" by blast
    show ?thesis
    proof (cases "(a, b) \<in> set (blocks s)")
      case True
      then have "(a, b) \<in> (edges_avoiding s V)\<^sup>+"
        using False by (auto simp: edges_avoiding_def)
      moreover have "\<exists>t \<in> set (blocks_of s a). task_id t = b"
        using True by (simp add: successors_iff[OF cons])
      ultimately show ?thesis
        using False ta by (simp add: doesTaskEventuallyBlock.simps)
    next
      case nodirect: False
      then have nd: "\<not> (\<exists>t \<in> set (blocks_of s a). task_id t = b)"
        by (simp add: successors_iff[OF cons])
      have lhs: "doesTaskEventuallyBlock s a b u V \<longleftrightarrow>
                 (\<exists>t \<in> set (blocks_of s a). doesTaskEventuallyBlock s (task_id t) b u (insert a V))"
        using False ta nd by (subst doesTaskEventuallyBlock.simps) simp
      have ih: "doesTaskEventuallyBlock s (task_id t) b u (insert a V)
                \<longleftrightarrow> (task_id t, b) \<in> (edges_avoiding s (insert a V))\<^sup>+"
        if "t \<in> set (blocks_of s a)" for t
      proof (rule "1.IH"[OF False ta _ that cons])
        show "\<not> (\<exists>blockedTask\<in>set (blocks_of s a). task_id blockedTask = b)" by (rule nd)
        have "(a, task_id t) \<in> set (blocks s)"
          using that by (simp add: blocks_of_def)
        then show "findOne s (task_id t) u \<noteq> None"
          using successor_owned[OF cons _ ta] by blast
      qed
      have "(\<exists>t \<in> set (blocks_of s a). (task_id t, b) \<in> (edges_avoiding s (insert a V))\<^sup>+)
            \<longleftrightarrow> (a, b) \<in> (edges_avoiding s V)\<^sup>+"
      proof
        assume "\<exists>t \<in> set (blocks_of s a). (task_id t, b) \<in> (edges_avoiding s (insert a V))\<^sup>+"
        then obtain t where t: "t \<in> set (blocks_of s a)"
          "(task_id t, b) \<in> (edges_avoiding s (insert a V))\<^sup>+" by blast
        have "edges_avoiding s (insert a V) \<subseteq> edges_avoiding s V"
          by (auto simp: edges_avoiding_def)
        then have "(task_id t, b) \<in> (edges_avoiding s V)\<^sup>+"
          using t(2) trancl_mono by blast
        moreover have "(a, task_id t) \<in> edges_avoiding s V"
          using t(1) False by (simp add: blocks_of_def edges_avoiding_def)
        ultimately show "(a, b) \<in> (edges_avoiding s V)\<^sup>+"
          by (rule trancl_into_trancl2[rotated])
      next
        assume "(a, b) \<in> (edges_avoiding s V)\<^sup>+"
        then obtain x where x: "(a, x) \<in> edges_avoiding s V"
          "(x, b) \<in> (edges_avoiding s (insert a V))\<^sup>*"
          using last_edge_from[of a b "edges_avoiding s V"]
          by (auto simp: edges_avoiding_insert)
        have ax: "(a, x) \<in> set (blocks s)"
          using x(1) by (simp add: edges_avoiding_def)
        then have "x \<noteq> b" using nodirect by blast
        with x(2) have "(x, b) \<in> (edges_avoiding s (insert a V))\<^sup>+"
          by (auto dest: rtranclD)
        moreover obtain t where "t \<in> set (blocks_of s a)" "task_id t = x"
          using ax successors_iff[OF cons, of a x] by blast
        ultimately show "\<exists>t \<in> set (blocks_of s a). (task_id t, b) \<in> (edges_avoiding s (insert a V))\<^sup>+"
          by blast
      qed
      then show ?thesis
        using lhs ih by blast
    qed
  qed
qed

lemma edges_avoiding_empty: "edges_avoiding s {} = set (blocks s)"
  by (auto simp: edges_avoiding_def)

lemma validateNoHierarchyConflict_error:
  "validateNoHierarchyConflict s a b u = Some (Inl e) \<Longrightarrow> e = InvalidRelationship"
  by (auto simp: validateNoHierarchyConflict_def split: option.splits if_splits)

lemma validateBlockingRules_error:
  "validateBlockingRules s ta tb u = Some (Inl e) \<Longrightarrow> e = InvalidRelationship"
  unfolding validateBlockingRules_def bindR_def
  by (auto split: if_splits option.splits sum.splits dest: validateNoHierarchyConflict_error)

lemma addBlocking_circular:
  assumes cons: "edges_consistent s"
    and a: "findOne s blockingId u = Some ta" and b: "findOne s blockedId u = Some tb"
    and neq: "blockingId \<noteq> blockedId" and noedge: "(blockingId, blockedId) \<notin> set (blocks s)"
  shows "addBlockingRelationship blockingId blockedId u s = Some (Inl CircularDependency)
           \<longleftrightarrow> (blockedId, blockingId) \<in> (set (blocks s))\<^sup>+"
proof -
  have nodup: "\<not> (\<exists>t \<in> set (blocks_of s blockingId). task_id t = blockedId)"
    using noedge by (simp add: successors_iff[OF cons])
  have reach: "doesTaskEventuallyBlock s blockedId blockingId u {}
               \<longleftrightarrow> (blockedId, blockingId) \<in> (set (blocks s))\<^sup>+"
    using doesTaskEventuallyBlock_reach[OF cons, of blockedId u blockingId "{}"] b
    by (simp add: edges_avoiding_empty)
  show ?thesis
  proof (cases "doesTaskEventuallyBlock s blockedId blockingId u {}")
    case True
    then have "addBlockingRelationship blockingId blockedId u s = Some (Inl CircularDependency)"
      using a b neq nodup
      by (simp add: addBlockingRelationship_def validateNoCircularBlocking_def bindR_def)
    with True reach show ?thesis by simp
  next
    case False
    then have "addBlockingRelationship blockingId blockedId u s =
                 bindR (validateBlockingRules s ta tb u)
                   (\<lambda>_. Some (Inr (s\<lparr>blocks := blocks s @ [(blockingId, blockedId)]\<rparr>)))"
      using a b neq nodup
      by (simp add: addBlockingRelationship_def validateNoCircularBlocking_def bindR_def)
    then have "addBlockingRelationship blockingId blockedId u s \<noteq> Some (Inl CircularDependency)"
      by (auto simp: bindR_def split: option.splits sum.splits dest: validateBlockingRules_error)
    with False reach show ?thesis by simp
  qed
qed

lemma reach_owned:
  assumes "edges_consistent s" "(x, y) \<in> (set (blocks s))\<^sup>*" "findOne s x u \<noteq> None"
  shows "findOne s y u \<noteq> None"
  using assms(2,3)
proof (induction rule: rtrancl_induct)
  case base
  then show ?case .
next
  case (step y z)
  then obtain ty where "findOne s y u = Some ty" by blast
  then show ?case
    using successor_owned[OF assms(1) step.hyps(2)] by blast
qed

section \<open>Cycle detection of the blocking graph\<close>

text \<open>
  C3: in a store whose blocking edges join existing tasks of one owner, which is what
  \<open>addBlockingRelationship\<close>, the one writer of the join table, keeps true, for two
  distinct tasks of the user with no edge from the first to the second,
  \<open>addBlockingRelationship\<close> fails with \<open>CircularDependency\<close> exactly when the blocked task
  already reaches the blocking task through the edges. After an edge from A to B has been
  added, adding an edge to A from B, or from any task that B reaches, fails with
  \<open>CircularDependency\<close>, and the edges of the new store again join existing tasks of one
  owner.
\<close>

theorem addBlocking_circular_iff:
  assumes cons: "edges_consistent s"
    and a: "findOne s blockingId u = Some ta" and b: "findOne s blockedId u = Some tb"
    and neq: "blockingId \<noteq> blockedId" and noedge: "(blockingId, blockedId) \<notin> set (blocks s)"
  shows "(addBlockingRelationship blockingId blockedId u s = Some (Inl CircularDependency)
            \<longleftrightarrow> (blockedId, blockingId) \<in> (set (blocks s))\<^sup>+)
         \<and> (\<forall>s1 c. addBlockingRelationship blockingId blockedId u s = Some (Inr s1)
                    \<and> (blockedId, c) \<in> (set (blocks s1))\<^sup>*
                \<longrightarrow> addBlockingRelationship c blockingId u s1 = Some (Inl CircularDependency))
         \<and> (\<forall>s1. addBlockingRelationship blockingId blockedId u s = Some (Inr s1)
                \<longrightarrow> edges_consistent s1)"
proof (intro conjI allI impI)
  fix s1
  assume h: "addBlockingRelationship blockingId blockedId u s = Some (Inr s1)"
  then have s1: "s1 = s\<lparr>blocks := blocks s @ [(blockingId, blockedId)]\<rparr>"
    using a b
    by (auto simp: addBlockingRelationship_def bindR_def split: option.splits sum.splits if_splits)
  show "edges_consistent s1"
    using cons a b findOne_SomeD[OF a] findOne_SomeD[OF b]
    by (auto simp: edges_consistent_def s1 findById_def findOne_def split: option.splits if_splits)
next
  show iff: "addBlockingRelationship blockingId blockedId u s = Some (Inl CircularDependency)
            \<longleftrightarrow> (blockedId, blockingId) \<in> (set (blocks s))\<^sup>+"
    by (rule addBlocking_circular[OF assms])
  fix s1 c
  assume h: "addBlockingRelationship blockingId blockedId u s = Some (Inr s1)
              \<and> (blockedId, c) \<in> (set (blocks s1))\<^sup>*"
  have nodup: "\<not> (\<exists>t \<in> set (blocks_of s blockingId). task_id t = blockedId)"
    using noedge by (simp add: successors_iff[OF cons])
  have s1: "s1 = s\<lparr>blocks := blocks s @ [(blockingId, blockedId)]\<rparr>"
    using h a b neq nodup
    by (auto simp: addBlockingRelationship_def bindR_def split: option.splits sum.splits)
  have R1: "set (blocks s1) = insert (blockingId, blockedId) (set (blocks s))"
    by (simp add: s1)
  have f1: "findOne s1 i u = findOne s i u" for i
    by (simp add: s1 findOne_def findById_def)
  have cons1: "edges_consistent s1"
    using cons a b findOne_SomeD[OF a] findOne_SomeD[OF b]
    by (auto simp: edges_consistent_def s1 findById_def findOne_def split: option.splits if_splits)
  have "(blockedId, blockingId) \<notin> (set (blocks s))\<^sup>+"
    using iff h by simp
  then have "(blockedId, blockingId) \<notin> (set (blocks s))\<^sup>*"
    using neq by (auto dest: rtranclD)
  then have nocyc: "(blockedId, blockingId) \<notin> (set (blocks s1))\<^sup>+"
    unfolding R1 trancl_insert by (auto dest: trancl_into_rtrancl)
  have c_owned: "findOne s1 c u \<noteq> None"
    using reach_owned[OF cons1 _, of blockedId c u] h b f1 by simp
  then obtain tc where tc: "findOne s1 c u = Some tc" by blast
  have cneq: "c \<noteq> blockingId"
  proof
    assume "c = blockingId"
    with h have "(blockedId, blockingId) \<in> (set (blocks s1))\<^sup>*" by simp
    with neq have "(blockedId, blockingId) \<in> (set (blocks s1))\<^sup>+" by (auto dest: rtranclD)
    with nocyc show False by simp
  qed
  have cedge: "(c, blockingId) \<notin> set (blocks s1)"
  proof
    assume "(c, blockingId) \<in> set (blocks s1)"
    with h have "(blockedId, blockingId) \<in> (set (blocks s1))\<^sup>+"
      by (meson rtrancl_into_trancl1)
    with nocyc show False by simp
  qed
  have "(blockingId, blockedId) \<in> set (blocks s1)"
    by (simp add: R1)
  moreover have "(blockedId, c) \<in> (set (blocks s1))\<^sup>*"
    using h by simp
  ultimately have "(blockingId, c) \<in> (set (blocks s1))\<^sup>+"
    by (rule rtrancl_into_trancl2)
  then show "addBlockingRelationship c blockingId u s1 = Some (Inl CircularDependency)"
    using addBlocking_circular[OF cons1 tc _ cneq cedge, of ta] a f1 by simp
qed

lemma storeABC_consistent: "edges_consistent storeABC"
  by (simp add: edges_consistent_def storeABC_def repo_defs)

lemma storeAB_consistent: "edges_consistent storeAB"
  by (simp add: edges_consistent_def storeAB_def repo_defs)

theorem addBlocking_circular_iff_witness:
  "edges_consistent storeABC
   \<and> (1, 3) \<in> (set (blocks storeABC))\<^sup>+
   \<and> addBlockingRelationship 3 1 7 storeABC = Some (Inl CircularDependency)
   \<and> addBlockingRelationship 1 2 7 storeAB = Some (Inr (storeAB\<lparr>blocks := [(1, 2)]\<rparr>))
   \<and> addBlockingRelationship 2 1 7 (storeAB\<lparr>blocks := [(1, 2)]\<rparr>) = Some (Inl CircularDependency)"
proof -
  have f3: "findOne storeABC 3 7 = Some (mkTask 3 7 ''C'' 30 False None)"
    and f1: "findOne storeABC 1 7 = Some (mkTask 1 7 ''A'' 10 False None)"
    and ne: "(3 :: nat, 1 :: nat) \<notin> set (blocks storeABC)"
    by (simp_all add: storeABC_def repo_defs)
  have "(1 :: nat, 2 :: nat) \<in> set (blocks storeABC)" "(2 :: nat, 3 :: nat) \<in> set (blocks storeABC)"
    by (simp_all add: storeABC_def repo_defs)
  then have reach: "(1, 3) \<in> (set (blocks storeABC))\<^sup>+"
    by (meson r_into_trancl trancl_trans)
  have circ: "addBlockingRelationship 3 1 7 storeABC = Some (Inl CircularDependency)"
    using addBlocking_circular_iff[OF storeABC_consistent f3 f1 _ ne] reach by simp
  have g1: "findOne storeAB 1 7 = Some (mkTask 1 7 ''A'' 10 False None)"
    and g2: "findOne storeAB 2 7 = Some (mkTask 2 7 ''B'' 20 False None)"
    and ne2: "(1 :: nat, 2 :: nat) \<notin> set (blocks storeAB)"
    by (simp_all add: storeAB_def repo_defs)
  have "addBlockingRelationship 2 1 7 (storeAB\<lparr>blocks := [(1, 2)]\<rparr>) = Some (Inl CircularDependency)"
    using addBlocking_circular_iff[OF storeAB_consistent g1 g2 _ ne2] storeAB_add
    by (auto dest: conjunct2)
  with storeABC_consistent reach circ storeAB_add show ?thesis by simp
qed

text \<open>
  The join table starts empty and \<open>removeBlockingRelationship\<close> only takes edges away, so
  the hypothesis on the edges holds in every store the two operations build. It cannot be
  dropped from the statement: the search looks tasks up by id and owner, and in a store
  made by hand, where the path from the blocked to the blocking task runs through a task
  of another user, the path is not found.
\<close>

lemma edges_consistent_empty: "blocks s = [] \<Longrightarrow> edges_consistent s"
  by (simp add: edges_consistent_def)

lemma removeBlockingRelationship_edges_consistent:
  assumes "edges_consistent s" and "removeBlockingRelationship a b u s = Inr s'"
  shows "edges_consistent s'"
proof -
  from assms(2) have s': "s' = s\<lparr>blocks := filter (\<lambda>e. e \<noteq> (a, b)) (blocks s)\<rparr>"
    by (auto simp: removeBlockingRelationship_def split: option.splits)
  show ?thesis
    using assms(1) unfolding edges_consistent_def s' by (auto simp: findById_def)
qed

lemma storeCross_not_consistent: "\<not> edges_consistent storeCross"
  by (simp add: edges_consistent_def storeCross_def repo_defs)

lemma cross_owner_path_not_found:
  "(1, 3) \<in> (set (blocks storeCross))\<^sup>+
   \<and> (3, 1) \<notin> set (blocks storeCross)
   \<and> acyclic (set (blocks storeCross))
   \<and> addBlockingRelationship 3 1 7 storeCross
       = Some (Inr (storeCross\<lparr>blocks := [(1, 2), (2, 3), (3, 1)]\<rparr>))"
proof -
  have e: "set (blocks storeCross) = {(1, 2), (2, 3)}"
    by (simp add: storeCross_def mkStore_def)
  have "(1 :: nat, 2 :: nat) \<in> set (blocks storeCross)" "(2 :: nat, 3 :: nat) \<in> set (blocks storeCross)"
    by (simp_all add: e)
  then have reach: "(1, 3) \<in> (set (blocks storeCross))\<^sup>+"
    by (meson r_into_trancl trancl_trans)
  have "acyclic ({} :: (nat \<times> nat) set)"
    by (simp add: acyclic_def)
  then have "acyclic {(2 :: nat, 3 :: nat)}"
    by (simp add: acyclic_insert)
  then have "acyclic {(1 :: nat, 2 :: nat), (2, 3)}"
    by (simp add: acyclic_insert rtrancl_insert)
  then have acyc: "acyclic (set (blocks storeCross))"
    by (simp only: e)
  have add: "addBlockingRelationship 3 1 7 storeCross
       = Some (Inr (storeCross\<lparr>blocks := [(1, 2), (2, 3), (3, 1)]\<rparr>))"
    by (simp add: storeCross_def repo_defs blocking_defs)
  from reach acyc add show ?thesis
    by (simp add: e)
qed

lemma getNextScheduledTime_nextTime:
  "getNextScheduledTime t (Some p) k = Inr (nextTime p k t)"
  by (cases p) (simp_all add: nextTime_def getNextScheduledTime_def)

lemma DayFromYear_mono: "0 < k \<Longrightarrow> DayFromYear y + 364 \<le> DayFromYear (y + int k)"
proof (induction k)
  case 0
  then show ?case by simp
next
  case (Suc k)
  show ?case
  proof (cases "k = 0")
    case True
    then show ?thesis using DayFromYear_step[of y] by simp
  next
    case False
    then have "DayFromYear y + 364 \<le> DayFromYear (y + int k)" using Suc.IH by simp
    moreover have "DayFromYear (y + int k) + 364 \<le> DayFromYear (y + int k + 1)"
      by (rule DayFromYear_step)
    ultimately show ?thesis by (simp add: algebra_simps)
  qed
qed

lemma monthStart_values:
  "monthStart leap 0 = 0" "monthStart leap 1 = 31" "monthStart leap (Suc 0) = 31"
  "monthStart leap 2 = 59 + (if leap then 1 else 0)"
  "monthStart leap (Suc (Suc 0)) = 59 + (if leap then 1 else 0)"
  "monthStart leap 3 = 90 + (if leap then 1 else 0)"
  "monthStart leap 4 = 120 + (if leap then 1 else 0)"
  "monthStart leap 5 = 151 + (if leap then 1 else 0)"
  "monthStart leap 6 = 181 + (if leap then 1 else 0)"
  "monthStart leap 7 = 212 + (if leap then 1 else 0)"
  "monthStart leap 8 = 243 + (if leap then 1 else 0)"
  "monthStart leap 9 = 273 + (if leap then 1 else 0)"
  "monthStart leap 10 = 304 + (if leap then 1 else 0)"
  "monthStart leap 11 = 334 + (if leap then 1 else 0)"
  by (simp_all add: monthStart_def Let_def)

lemma month_cases:
  assumes "m < (12 :: nat)"
  obtains "m = 0" | "m = 1" | "m = 2" | "m = 3" | "m = 4" | "m = 5" | "m = 6" | "m = 7"
    | "m = 8" | "m = 9" | "m = 10" | "m = 11"
proof -
  have "m = 0 \<or> m = 1 \<or> m = 2 \<or> m = 3 \<or> m = 4 \<or> m = 5 \<or> m = 6 \<or> m = 7
        \<or> m = 8 \<or> m = 9 \<or> m = 10 \<or> m = 11"
    using assms by arith
  then show thesis
    using that by blast
qed

lemma monthStart_bounds:
  assumes "m < 12"
  shows "0 \<le> monthStart leap m" "monthStart leap m \<le> 335"
    "monthStart False m \<le> monthStart leap m" "monthStart leap m \<le> monthStart False m + 1"
  using assms by (cases m rule: month_cases; simp add: monthStart_values)+

lemma monthStart_step:
  assumes "m + 1 < 12"
  shows "monthStart leap m < monthStart leap (m + 1)"
proof -
  have "m < 12" using assms by simp
  then show ?thesis
    using assms by (cases m rule: month_cases) (simp_all add: monthStart_values)
qed

lemma monthStart_strict_mono:
  "m < m' \<Longrightarrow> m' < 12 \<Longrightarrow> monthStart leap m < monthStart leap m'"
proof (induction m')
  case 0
  then show ?case by simp
next
  case (Suc m')
  show ?case
  proof (cases "m = m'")
    case True
    then show ?thesis using monthStart_step[of m' leap] Suc.prems by simp
  next
    case False
    then have "monthStart leap m < monthStart leap m'" using Suc by simp
    also have "\<dots> < monthStart leap (Suc m')" using monthStart_step[of m' leap] Suc.prems by simp
    finally show ?thesis .
  qed
qed

lemma day_of_time: "t div msPerDay = MakeDay (getFullYear t) (int (getMonth t)) (getDate t)"
proof -
  have "int (getMonth t) div 12 = 0" "nat (int (getMonth t) mod 12) = getMonth t"
    using getMonth_less[of t] by simp_all
  then show ?thesis
    by (simp add: MakeDay_def Let_def getDate_def)
qed

lemma MakeDay_later_month:
  assumes "m < 12" "0 < k"
  shows "MakeDay y (int m) d < MakeDay y (int m + int k) d"
proof -
  let ?m' = "int m + int k"
  have m0: "int m div 12 = 0" "nat (int m mod 12) = m"
    using assms(1) by simp_all
  have lhs: "MakeDay y (int m) d = DayFromYear y + monthStart (InLeapYear y) m + d - 1"
    by (simp add: MakeDay_def Let_def m0)
  have rhs: "MakeDay y ?m' d = DayFromYear (y + ?m' div 12)
               + monthStart (InLeapYear (y + ?m' div 12)) (nat (?m' mod 12)) + d - 1"
    by (simp add: MakeDay_def Let_def)
  have mod12: "nat (?m' mod 12) < 12"
    by (simp add: nat_less_iff)
  show ?thesis
  proof (cases "m + k < 12")
    case True
    then have "?m' div 12 = 0" "nat (?m' mod 12) = m + k"
      by (simp_all add: div_pos_pos_trivial nat_add_distrib)
    then show ?thesis
      using monthStart_strict_mono[of m "m + k" "InLeapYear y"] True assms(2)
      by (simp add: lhs rhs)
  next
    case False
    then have "0 < nat (?m' div 12)" by (simp add: zless_nat_eq_int_zless pos_imp_zdiv_pos_iff)
    then have "DayFromYear y + 364 \<le> DayFromYear (y + int (nat (?m' div 12)))"
      by (rule DayFromYear_mono)
    moreover have "int (nat (?m' div 12)) = ?m' div 12"
      by (simp add: pos_imp_zdiv_nonneg_iff)
    moreover have "0 \<le> monthStart (InLeapYear (y + ?m' div 12)) (nat (?m' mod 12))"
      using monthStart_bounds(1)[OF mod12] .
    moreover have "monthStart (InLeapYear y) m \<le> 335"
      using monthStart_bounds(2)[OF assms(1)] .
    ultimately show ?thesis
      by (simp add: lhs rhs)
  qed
qed

lemma MakeDay_later_year:
  assumes "m < 12" "0 < k"
  shows "MakeDay y (int m) d < MakeDay (y + int k) (int m) d"
proof -
  have m0: "int m div 12 = 0" "nat (int m mod 12) = m"
    using assms(1) by simp_all
  have "DayFromYear y + 364 \<le> DayFromYear (y + int k)"
    using assms(2) by (rule DayFromYear_mono)
  moreover have "monthStart (InLeapYear y) m \<le> monthStart False m + 1"
    "monthStart False m \<le> monthStart (InLeapYear (y + int k)) m"
    using monthStart_bounds(3,4)[OF assms(1)] by simp_all
  ultimately show ?thesis
    by (simp add: MakeDay_def Let_def m0)
qed

lemma time_of_day: "t = MakeDay (getFullYear t) (int (getMonth t)) (getDate t) * msPerDay + t mod msPerDay"
  by (simp add: day_of_time[symmetric])

lemma nextTime_gt:
  assumes "0 < k"
  shows "t < nextTime p k t"
proof (cases p)
  case DAILY
  then show ?thesis
    using assms by (simp add: nextTime_def getNextScheduledTime_DAILY msPerDay_def)
next
  case WEEKLY
  then show ?thesis
    using assms by (simp add: nextTime_def getNextScheduledTime_WEEKLY msPerDay_def)
next
  case MONTHLY
  have "MakeDay (getFullYear t) (int (getMonth t)) (getDate t)
          < MakeDay (getFullYear t) (int (getMonth t) + int k) (getDate t)"
    using getMonth_less assms by (rule MakeDay_later_month)
  then have "MakeDay (getFullYear t) (int (getMonth t)) (getDate t) * msPerDay
          < MakeDay (getFullYear t) (int (getMonth t) + int k) (getDate t) * msPerDay"
    by (simp add: msPerDay_def)
  then have "t < setMonth t (int (getMonth t) + int k)"
    using time_of_day[of t] by (simp add: setMonth_def)
  with MONTHLY show ?thesis
    by (simp add: nextTime_def getNextScheduledTime_def)
next
  case YEARLY
  have "MakeDay (getFullYear t) (int (getMonth t)) (getDate t)
          < MakeDay (getFullYear t + int k) (int (getMonth t)) (getDate t)"
    using getMonth_less assms by (rule MakeDay_later_year)
  then have "MakeDay (getFullYear t) (int (getMonth t)) (getDate t) * msPerDay
          < MakeDay (getFullYear t + int k) (int (getMonth t)) (getDate t) * msPerDay"
    by (simp add: msPerDay_def)
  then have "t < setFullYear t (getFullYear t + int k)"
    using time_of_day[of t] by (simp add: setFullYear_def)
  with YEARLY show ?thesis
    by (simp add: nextTime_def getNextScheduledTime_def)
qed

lemma funpow_ge:
  fixes f :: "int \<Rightarrow> int"
  assumes "\<And>t. t < f t"
  shows "t \<le> (f ^^ j) t"
proof (induction j)
  case 0
  then show ?case by simp
next
  case (Suc j)
  have "(f ^^ j) t < f ((f ^^ j) t)" by (rule assms)
  with Suc show ?case by simp
qed

lemma intervalOr1_pos: "0 < intervalOr1 n"
  by (simp add: intervalOr1_def split: option.splits)




lemma fold_max_ge: "(a :: int) \<le> fold max xs a \<and> (\<forall>x \<in> set xs. x \<le> fold max xs a)"
proof (induction xs arbitrary: a)
  case Nil
  then show ?case by simp
next
  case (Cons x xs)
  have "max x a \<le> fold max xs (max x a)" "\<forall>y \<in> set xs. y \<le> fold max xs (max x a)"
    using Cons[of "max x a"] by auto
  then show ?case by auto
qed

lemma lastInstanceTime_None:
  "lastInstanceTime s pid = None \<Longrightarrow> \<forall>r \<in> set (tasks s). parentRecurrencyId r \<noteq> Some pid"
  by (auto simp: lastInstanceTime_def filter_empty_conv split: list.splits)

lemma lastInstanceTime_Some:
  assumes "lastInstanceTime s pid = Some l"
  shows "\<forall>r \<in> set (tasks s). parentRecurrencyId r = Some pid \<longrightarrow> scheduledTime r \<le> l"
proof (intro ballI impI)
  fix r
  assume r: "r \<in> set (tasks s)" "parentRecurrencyId r = Some pid"
  from assms obtain x xs where f: "filter (\<lambda>t. parentRecurrencyId t = Some pid) (tasks s) = x # xs"
    and l: "l = fold max (map scheduledTime xs) (scheduledTime x)"
    by (auto simp: lastInstanceTime_def split: list.splits)
  from r have "r \<in> set (filter (\<lambda>t. parentRecurrencyId t = Some pid) (tasks s))"
    by simp
  then have "r = x \<or> r \<in> set xs"
    by (simp add: f)
  then show "scheduledTime r \<le> l"
    using fold_max_ge[of "scheduledTime x" "map scheduledTime xs"] l by auto
qed

lemma seedTime_bound:
  "\<forall>r \<in> set (tasks s). parentRecurrencyId r = Some (task_id parent)
      \<longrightarrow> scheduledTime r \<le> seedTime s parent"
  using lastInstanceTime_None[of s "task_id parent"] lastInstanceTime_Some[of s "task_id parent"]
  by (cases "lastInstanceTime s (task_id parent)") (auto simp: seedTime_def)

lemma saveInstance_fresh:
  assumes "\<forall>r \<in> set (tasks s). parentRecurrencyId r = Some (task_id parent) \<longrightarrow> scheduledTime r < n"
  shows "saveInstance parent n s = withInstances s parent (\<lambda>j. n) 1"
proof -
  have "\<not> (\<exists>r \<in> set (tasks s). parentRecurrencyId r = Some (task_id parent) \<and> scheduledTime r = n)"
    using assms by auto
  then have "saveInstance parent n s =
      emit (RemindersScheduled (nextId s))
        (s\<lparr>tasks := tasks s @ [newInstance parent n (nextId s)], nextId := Suc (nextId s)\<rparr>)"
    by (auto simp add: saveInstance_def repo_insert_def Let_def newInstance_def)
  then show ?thesis
    by (simp add: emit_def withInstances_def)
qed

lemma withInstances_0: "withInstances s parent time 0 = s"
  by (simp add: withInstances_def)

lemma withInstances_Suc:
  "withInstances (withInstances s parent (\<lambda>j. time 0) 1) parent (\<lambda>j. time (Suc j)) m
     = withInstances s parent time (Suc m)"
proof -
  have a: "map (\<lambda>j. newInstance parent (time j) (nextId s + j)) [0..<Suc m]
        = newInstance parent (time 0) (nextId s)
            # map (\<lambda>j. newInstance parent (time (Suc j)) (Suc (nextId s + j))) [0..<m]"
    by (subst map_upt_Suc) simp
  have b: "map (\<lambda>j. RemindersScheduled (nextId s + j)) [0..<Suc m]
        = RemindersScheduled (nextId s)
            # map (\<lambda>j. RemindersScheduled (Suc (nextId s + j))) [0..<m]"
    by (subst map_upt_Suc) simp
  show ?thesis
    unfolding withInstances_def a b by simp
qed

lemma generateLoop_exact:
  assumes pat: "recurrencePattern parent = Some p"
  shows "(\<forall>r \<in> set (tasks s). parentRecurrencyId r = Some (task_id parent) \<longrightarrow> scheduledTime r < n)
     \<Longrightarrow> \<exists>m. generateLoop parent b n s
               = Some (Inr (withInstances s parent
                     (\<lambda>j. (nextTime p (intervalOr1 (recurrenceInterval parent)) ^^ j) n) m))
           \<and> (\<forall>j. withinLimits parent b ((nextTime p (intervalOr1 (recurrenceInterval parent)) ^^ j) n)
                  \<longleftrightarrow> j < m)"
proof (induction "nat (b + 1 - n)" arbitrary: n s rule: less_induct)
  case less
  let ?k = "intervalOr1 (recurrenceInterval parent)"
  let ?f = "nextTime p ?k"
  have gt: "\<And>t. t < ?f t"
    by (rule nextTime_gt[OF intervalOr1_pos])
  have ge: "\<And>j. n \<le> (?f ^^ j) n"
    by (rule funpow_ge[OF gt])
  let ?stop = "\<not> n \<le> b \<or> (case recurrenceEndDate parent of None \<Rightarrow> False | Some e \<Rightarrow> e < n)"
  show ?case
  proof (cases ?stop)
    case True
    then have "generateLoop parent b n s = Some (Inr s)"
      by (subst generateLoop.simps) auto
    moreover have "\<not> withinLimits parent b ((?f ^^ j) n)" for j
      using True ge[of j] by (auto simp: withinLimits_def split: option.splits)
    ultimately show ?thesis
      by (intro exI[of _ 0]) (simp add: withInstances_0)
  next
    case False
    let ?s1 = "saveInstance parent n s"
    have s1: "?s1 = withInstances s parent (\<lambda>j. n) 1"
      by (rule saveInstance_fresh[OF less.prems])
    have step: "generateLoop parent b n s = generateLoop parent b (?f n) ?s1"
      using False
      by (subst generateLoop.simps) (auto simp: pat getNextScheduledTime_nextTime)
    have dec: "nat (b + 1 - ?f n) < nat (b + 1 - n)"
      using False gt[of n] by auto
    have fresh1: "\<forall>r \<in> set (tasks ?s1). parentRecurrencyId r = Some (task_id parent)
                    \<longrightarrow> scheduledTime r < ?f n"
      using less.prems gt[of n] unfolding s1
      by (auto simp: withInstances_def newInstance_def)
    from less.hyps[OF dec fresh1] obtain m where
      r: "generateLoop parent b (?f n) ?s1
            = Some (Inr (withInstances ?s1 parent (\<lambda>j. (?f ^^ j) (?f n)) m))"
      and cov: "\<forall>j. withinLimits parent b ((?f ^^ j) (?f n)) \<longleftrightarrow> j < m"
      by blast
    have sh: "(?f ^^ j) (?f n) = (?f ^^ Suc j) n" for j
      by (simp add: funpow_swap1)
    have "withInstances ?s1 parent (\<lambda>j. (?f ^^ j) (?f n)) m
            = withInstances s parent (\<lambda>j. (?f ^^ j) n) (Suc m)"
      unfolding s1 sh using withInstances_Suc[of s parent "\<lambda>j. (?f ^^ j) n" m]
      by (simp only: funpow_0)
    with step r have res: "generateLoop parent b n s
            = Some (Inr (withInstances s parent (\<lambda>j. (?f ^^ j) n) (Suc m)))"
      by simp
    have here: "withinLimits parent b n"
      using False by (auto simp: withinLimits_def split: option.splits)
    have "withinLimits parent b ((?f ^^ j) n) \<longleftrightarrow> j < Suc m" for j
    proof (cases j)
      case 0
      then show ?thesis using here by simp
    next
      case (Suc j')
      have "withinLimits parent b ((?f ^^ Suc j') n) \<longleftrightarrow> j' < m"
        using cov by (simp only: sh[symmetric])
      then show ?thesis by (simp only: Suc Suc_less_eq)
    qed
    with res show ?thesis by blast
  qed
qed

lemma countUpcoming_withInstances:
  "countUpcomingInstances (withInstances s parent time m) now (task_id parent)
     = countUpcomingInstances s now (task_id parent)
       + int (length (filter (\<lambda>j. now < time j) [0..<m]))"
proof -
  have "filter (\<lambda>t. parentRecurrencyId t = Some (task_id parent) \<and> \<not> completed t \<and> now < scheduledTime t)
          (map (\<lambda>j. newInstance parent (time j) (nextId s + j)) [0..<m])
        = map (\<lambda>j. newInstance parent (time j) (nextId s + j)) (filter (\<lambda>j. now < time j) [0..<m])"
    by (simp add: filter_map o_def newInstance_def)
  then show ?thesis
    by (simp add: countUpcomingInstances_def withInstances_def)
qed

lemma generate_exact:
  assumes pat: "recurrencePattern parent = Some p"
    and nopast: "case recurrenceEndDate parent of None \<Rightarrow> True | Some e \<Rightarrow> now \<le> e"
  shows "\<exists>m. generateInstancesForOptimalBuffer now parent s
               = Some (Inr (withInstances s parent (candidate s parent) m))
           \<and> (\<forall>j. withinLimits parent (now + getOptimalBuffer (Some p) * msPerDay)
                    (candidate s parent j) \<longleftrightarrow> j < m)"
proof -
  let ?f = "nextTime p (intervalOr1 (recurrenceInterval parent))"
  let ?seed = "seedTime s parent"
  have gt: "\<And>t. t < ?f t"
    by (rule nextTime_gt[OF intervalOr1_pos])
  have fresh: "\<forall>r \<in> set (tasks s). parentRecurrencyId r = Some (task_id parent)
                    \<longrightarrow> scheduledTime r < ?f ?seed"
    using seedTime_bound[of s parent] gt[of ?seed] by fastforce
  have "\<not> (case recurrenceEndDate parent of None \<Rightarrow> False | Some e \<Rightarrow> e < now)"
    using nopast by (auto split: option.splits)
  then have g: "generateInstancesForOptimalBuffer now parent s
          = generateLoop parent (now + getOptimalBuffer (Some p) * msPerDay) (?f ?seed) s"
    by (simp add: generateInstancesForOptimalBuffer_def Let_def pat getNextScheduledTime_nextTime
          setDate_getDate_add seedTime_def)
  have c: "candidate s parent = (\<lambda>j. (?f ^^ j) (?f ?seed))"
    by (rule ext) (simp add: candidate_def pat funpow_swap1)
  show ?thesis
    unfolding g c by (rule generateLoop_exact[OF pat fresh])
qed


lemma candidate_increasing:
  assumes "recurrencePattern parent = Some p"
  shows "seedTime s parent < candidate s parent j \<and> candidate s parent j < candidate s parent (Suc j)"
proof -
  let ?f = "nextTime p (intervalOr1 (recurrenceInterval parent))"
  have gt: "\<And>t. t < ?f t"
    by (rule nextTime_gt[OF intervalOr1_pos])
  have "seedTime s parent \<le> (?f ^^ j) (seedTime s parent)"
    by (rule funpow_ge[OF gt])
  also have "\<dots> < (?f ^^ Suc j) (seedTime s parent)"
    using gt by simp
  finally have a: "seedTime s parent < candidate s parent j"
    by (simp add: candidate_def assms)
  have "candidate s parent j < ?f (candidate s parent j)"
    by (rule gt)
  then have b: "candidate s parent j < candidate s parent (Suc j)"
    by (simp add: candidate_def assms)
  from a b show ?thesis ..
qed

section \<open>Generation up to the buffer\<close>

text \<open>
  C2 (as amended): for a template with a pattern whose end date is not in the past,
  \<open>generateInstancesForOptimalBuffer\<close> returns. The candidate times are the recurrence
  steps after the seed (the latest instance's time, or the template's own); they
  increase strictly, so none of them has an instance yet. The call appends one new,
  incomplete instance for each candidate that is within both the horizon of now plus the
  optimal buffer in days and the end date, in order and with the next ids, and nothing
  else. The number of incomplete instances scheduled strictly in the future therefore
  grows by the number of those candidates that are after now, which is all of them when
  the seed is not before now. The optimal buffers are 3, 14, 60 and 365 days and the
  minimum buffers 1, 5, 18 and 110.
\<close>

theorem generate_covers_window:
  assumes "recurrencePattern parent = Some p"
    and "case recurrenceEndDate parent of None \<Rightarrow> True | Some e \<Rightarrow> now \<le> e"
  shows "(\<exists>m. generateInstancesForOptimalBuffer now parent s
                = Some (Inr (withInstances s parent (candidate s parent) m))
            \<and> (\<forall>j. withinLimits parent (now + getOptimalBuffer (Some p) * msPerDay)
                     (candidate s parent j) \<longleftrightarrow> j < m)
            \<and> countUpcomingInstances (withInstances s parent (candidate s parent) m) now
                  (task_id parent)
                = countUpcomingInstances s now (task_id parent)
                  + int (length (filter (\<lambda>j. now < candidate s parent j) [0..<m]))
            \<and> (now \<le> seedTime s parent \<longrightarrow>
                  countUpcomingInstances (withInstances s parent (candidate s parent) m) now
                      (task_id parent)
                    = countUpcomingInstances s now (task_id parent) + int m))
         \<and> (\<forall>j. seedTime s parent < candidate s parent j
                \<and> candidate s parent j < candidate s parent (Suc j))
         \<and> map getOptimalBuffer [Some DAILY, Some WEEKLY, Some MONTHLY, Some YEARLY] = [3, 14, 60, 365]
         \<and> map getMinBuffer [Some DAILY, Some WEEKLY, Some MONTHLY, Some YEARLY] = [1, 5, 18, 110]"
proof (intro conjI allI)
  from generate_exact[OF assms, of s] obtain m where
    r: "generateInstancesForOptimalBuffer now parent s
          = Some (Inr (withInstances s parent (candidate s parent) m))"
    and w: "\<forall>j. withinLimits parent (now + getOptimalBuffer (Some p) * msPerDay)
                     (candidate s parent j) \<longleftrightarrow> j < m"
    by blast
  have c: "countUpcomingInstances (withInstances s parent (candidate s parent) m) now
                  (task_id parent)
                = countUpcomingInstances s now (task_id parent)
                  + int (length (filter (\<lambda>j. now < candidate s parent j) [0..<m]))"
    by (rule countUpcoming_withInstances)
  have "filter (\<lambda>j. now < candidate s parent j) [0..<m] = [0..<m]" if "now \<le> seedTime s parent"
    using that candidate_increasing[OF assms(1), of s] by (auto simp: filter_id_conv intro: order.strict_trans1)
  then have d: "now \<le> seedTime s parent \<longrightarrow>
                  countUpcomingInstances (withInstances s parent (candidate s parent) m) now
                      (task_id parent)
                    = countUpcomingInstances s now (task_id parent) + int m"
    using c by simp
  from r w c d show "\<exists>m. generateInstancesForOptimalBuffer now parent s
                = Some (Inr (withInstances s parent (candidate s parent) m))
            \<and> (\<forall>j. withinLimits parent (now + getOptimalBuffer (Some p) * msPerDay)
                     (candidate s parent j) \<longleftrightarrow> j < m)
            \<and> countUpcomingInstances (withInstances s parent (candidate s parent) m) now
                  (task_id parent)
                = countUpcomingInstances s now (task_id parent)
                  + int (length (filter (\<lambda>j. now < candidate s parent j) [0..<m]))
            \<and> (now \<le> seedTime s parent \<longrightarrow>
                  countUpcomingInstances (withInstances s parent (candidate s parent) m) now
                      (task_id parent)
                    = countUpcomingInstances s now (task_id parent) + int m)"
    by blast
  show "seedTime s parent < candidate s parent j" for j
    using candidate_increasing[OF assms(1), of s j] by simp
  show "candidate s parent j < candidate s parent (Suc j)" for j
    using candidate_increasing[OF assms(1), of s j] by simp
  show "map getOptimalBuffer [Some DAILY, Some WEEKLY, Some MONTHLY, Some YEARLY] = [3, 14, 60, 365]"
    by (simp add: getOptimalBuffer_def)
  show "map getMinBuffer [Some DAILY, Some WEEKLY, Some MONTHLY, Some YEARLY] = [1, 5, 18, 110]"
    by (simp add: getMinBuffer_def getOptimalBuffer_def)
qed

theorem generate_covers_window_witness:
  "generateInstancesForOptimalBuffer (9 * hour) weeklyTemplate
      \<lparr>tasks = [weeklyTemplate], blocks = [], nextId = 2, events = []\<rparr>
     = Some (Inr \<lparr>tasks = [weeklyTemplate,
                           newInstance weeklyTemplate (9 * hour + 7 * msPerDay) 2,
                           newInstance weeklyTemplate (9 * hour + 14 * msPerDay) 3],
                  blocks = [], nextId = 4,
                  events = [RemindersScheduled 2, RemindersScheduled 3]\<rparr>)
   \<and> countUpcomingInstances
         \<lparr>tasks = [weeklyTemplate,
                   newInstance weeklyTemplate (9 * hour + 7 * msPerDay) 2,
                   newInstance weeklyTemplate (9 * hour + 14 * msPerDay) 3],
          blocks = [], nextId = 4,
          events = [RemindersScheduled 2, RemindersScheduled 3]\<rparr> (9 * hour) 1 = 2"
proof -
  define s0 where "s0 = \<lparr>tasks = [weeklyTemplate], blocks = [], nextId = 2, events = []\<rparr>"
  have pat: "recurrencePattern weeklyTemplate = Some WEEKLY"
    and noend: "case recurrenceEndDate weeklyTemplate of None \<Rightarrow> True | Some e \<Rightarrow> 9 * hour \<le> e"
    and iv: "recurrenceInterval weeklyTemplate = Some 1"
    by (simp_all add: weeklyTemplate_def)
  have seed: "seedTime s0 weeklyTemplate = 9 * hour"
    by (simp add: seedTime_def lastInstanceTime_def weeklyTemplate_def s0_def)
  have c: "candidate s0 weeklyTemplate 0 = 9 * hour + 7 * msPerDay"
    "candidate s0 weeklyTemplate (Suc 0) = 9 * hour + 14 * msPerDay"
    "candidate s0 weeklyTemplate (Suc (Suc 0)) = 9 * hour + 21 * msPerDay"
    by (simp_all add: candidate_def seed pat iv nextTime_def getNextScheduledTime_WEEKLY
          intervalOr1_def)
  obtain m where
    r: "generateInstancesForOptimalBuffer (9 * hour) weeklyTemplate s0
          = Some (Inr (withInstances s0 weeklyTemplate (candidate s0 weeklyTemplate) m))"
    and w: "\<And>j. withinLimits weeklyTemplate (9 * hour + getOptimalBuffer (Some WEEKLY) * msPerDay)
                     (candidate s0 weeklyTemplate j) \<longleftrightarrow> j < m"
    and n: "countUpcomingInstances (withInstances s0 weeklyTemplate (candidate s0 weeklyTemplate) m)
              (9 * hour) (task_id weeklyTemplate)
            = countUpcomingInstances s0 (9 * hour) (task_id weeklyTemplate) + int m"
    using generate_covers_window[OF pat noend, of s0] seed by auto
  have "withinLimits weeklyTemplate (9 * hour + getOptimalBuffer (Some WEEKLY) * msPerDay)
          (candidate s0 weeklyTemplate (Suc 0))"
    unfolding c by (simp add: withinLimits_def weeklyTemplate_def getOptimalBuffer_def msPerDay_def)
  then have m1: "Suc 0 < m"
    using w by blast
  have "\<not> withinLimits weeklyTemplate (9 * hour + getOptimalBuffer (Some WEEKLY) * msPerDay)
          (candidate s0 weeklyTemplate (Suc (Suc 0)))"
    unfolding c by (simp add: withinLimits_def weeklyTemplate_def getOptimalBuffer_def msPerDay_def)
  then have m2: "\<not> Suc (Suc 0) < m"
    using w by blast
  from m1 m2 have m: "m = Suc (Suc 0)"
    by simp
  have "withInstances s0 weeklyTemplate (candidate s0 weeklyTemplate) (Suc (Suc 0))
        = s0\<lparr>tasks := tasks s0 @ [newInstance weeklyTemplate (9 * hour + 7 * msPerDay) (nextId s0),
                                     newInstance weeklyTemplate (9 * hour + 14 * msPerDay) (Suc (nextId s0))],
              nextId := Suc (Suc (nextId s0)),
              events := events s0 @ [RemindersScheduled (nextId s0),
                                      RemindersScheduled (Suc (nextId s0))]\<rparr>"
    by (simp add: withInstances_def c)
  also have "\<dots> = \<lparr>tasks = [weeklyTemplate,
                   newInstance weeklyTemplate (9 * hour + 7 * msPerDay) 2,
                   newInstance weeklyTemplate (9 * hour + 14 * msPerDay) 3],
           blocks = [], nextId = 4,
           events = [RemindersScheduled 2, RemindersScheduled 3]\<rparr>"
    by (simp add: s0_def)
  finally have st: "withInstances s0 weeklyTemplate (candidate s0 weeklyTemplate) (Suc (Suc 0))
        = \<lparr>tasks = [weeklyTemplate,
                   newInstance weeklyTemplate (9 * hour + 7 * msPerDay) 2,
                   newInstance weeklyTemplate (9 * hour + 14 * msPerDay) 3],
           blocks = [], nextId = 4,
           events = [RemindersScheduled 2, RemindersScheduled 3]\<rparr>" .
  have tid: "task_id weeklyTemplate = 1"
    by (simp add: weeklyTemplate_def)
  have zero: "countUpcomingInstances s0 (9 * hour) 1 = 0"
    by (simp add: countUpcomingInstances_def weeklyTemplate_def s0_def)
  from r n show ?thesis
    unfolding m st tid zero by (simp add: s0_def)
qed

text \<open>
  A weekly template with no end date, created at its scheduled time, has two future
  instances after generation, fewer than its minimum buffer of 5: the horizon of 14 days
  holds two weekly steps.
\<close>

theorem weekly_below_min_buffer_counterexample:
  "create weeklyDto 7 (9 * hour) emptyStore = Some (Inr (weeklyTemplate, weeklyStore))
   \<and> countUpcomingInstances weeklyStore (9 * hour) 1 = 2
   \<and> getMinBuffer (Some WEEKLY) = 5
   \<and> needsMoreInstances weeklyStore (9 * hour) weeklyTemplate"
  by (simp add: create_def weeklyDto_def weeklyTemplate_def weeklyStore_def emptyStore_def
        repo_defs recurring_defs Let_def)




















section \<open>The completion invariant\<close>





end
